theory Spec2Isabelle
  imports Main
begin

section \<open>Strings and JSON values as the action uses them\<close>

text \<open>
  A JavaScript string is modelled as a \<open>string\<close>: a list of characters of the range
  U+0000 to U+00FF. A JavaScript number is modelled as an \<open>int\<close> (the counts and
  thresholds of the data model are integers). \<open>trim\<close> removes the white space of
  \<open>String.prototype.trim\<close> that lies in that range; \<open>toLowerCase\<close> lowers the letters
  of that range that have a lower case (A to Z, and U+00C0 to U+00DE but U+00D7).
\<close>

definition isWhiteSpace :: "char \<Rightarrow> bool" where
  "isWhiteSpace c = (of_char c \<in> {9, 10, 11, 12, 13, 32, 160 :: nat})"

definition trim :: "string \<Rightarrow> string" where
  "trim s = rev (dropWhile isWhiteSpace (rev (dropWhile isWhiteSpace s)))"

definition lower_char :: "char \<Rightarrow> char" where
  "lower_char c =
     (let n = (of_char c :: nat)
      in if (65 \<le> n \<and> n \<le> 90) \<or> (192 \<le> n \<and> n \<le> 222 \<and> n \<noteq> 215)
         then char_of (n + 32) else c)"

definition toLowerCase :: "string \<Rightarrow> string" where
  "toLowerCase s = map lower_char s"

text \<open>\<open>s.split(c)\<close> for a one-character separator: always at least one part.\<close>

fun split_on :: "char \<Rightarrow> string \<Rightarrow> string list" where
  "split_on c [] = [[]]"
| "split_on c (x # xs) =
     (if x = c then [] # split_on c xs
      else (case split_on c xs of
              [] \<Rightarrow> [[x]]
            | p # ps \<Rightarrow> (x # p) # ps))"

definition endsWith :: "string \<Rightarrow> string \<Rightarrow> bool" where
  "endsWith s suffix = (length suffix \<le> length s \<and> drop (length s - length suffix) s = suffix)"

text \<open>\<open>a || b\<close> on strings that may be absent: the empty string and \<open>undefined\<close> are falsy.\<close>

definition truthy :: "string option \<Rightarrow> bool" where
  "truthy v = (case v of None \<Rightarrow> False | Some s \<Rightarrow> s \<noteq> [])"

definition or_else :: "string option \<Rightarrow> string option \<Rightarrow> string option" where
  "or_else a b = (if truthy a then a else b)"

text \<open>The values \<open>JSON.parse\<close> returns. An object is the list of its own properties.\<close>

datatype json =
    JNull
  | JBool bool
  | JNum int
  | JStr string
  | JArr "json list"
  | JObj "(string \<times> json) list"

text \<open>\<open>String(n)\<close> for an integer: its decimal digits.\<close>

fun digits :: "nat \<Rightarrow> string" where
  "digits n =
     (if n < 10 then [char_of (48 + n)]
      else digits (n div 10) @ [char_of (48 + n mod 10)])"

declare digits.simps [simp del]

definition String_num :: "int \<Rightarrow> string" where
  "String_num n = (if n < 0 then CHR ''-'' # digits (nat (- n)) else digits (nat n))"

fun join_with :: "string \<Rightarrow> string list \<Rightarrow> string" where
  "join_with sep [] = []"
| "join_with sep [x] = x"
| "join_with sep (x # y # ys) = x @ sep @ join_with sep (y # ys)"

text \<open>\<open>String(v)\<close> for a parsed JSON value.\<close>

fun String_of :: "json \<Rightarrow> string" where
  "String_of JNull = ''null''"
| "String_of (JBool b) = (if b then ''true'' else ''false'')"
| "String_of (JNum n) = String_num n"
| "String_of (JStr s) = s"
| "String_of (JArr vs) =
     join_with '','' (map (\<lambda>v. case v of JNull \<Rightarrow> [] | _ \<Rightarrow> String_of v) vs)"
| "String_of (JObj kvs) = ''[object Object]''"

section \<open>The policy table (src/config.ts)\<close>

record PolicyRule =
  minMerged :: int
  allowedOpen :: int

text \<open>
  The loop of \<open>allowedOpenFromPolicy\<close>: \<open>selected\<close> is updated while the rule's
  \<open>minMerged\<close> is at most \<open>mergedCount\<close>; the first larger rule breaks the loop.
\<close>

fun scan_rules :: "int \<Rightarrow> PolicyRule \<Rightarrow> PolicyRule list \<Rightarrow> PolicyRule" where
  "scan_rules mergedCount selected [] = selected"
| "scan_rules mergedCount selected (rule # rest) =
     (if mergedCount \<ge> minMerged rule then scan_rules mergedCount rule rest else selected)"

text \<open>
  \<open>[...policy].sort((a, b) => a.minMerged - b.minMerged)\<close> is a stable ascending sort by
  \<open>minMerged\<close>; \<open>sort_key\<close> is the stable insertion sort. \<open>selectRule\<close> is the rule held
  by \<open>selected\<close> when the loop ends; the source runs it on a non-empty table only.
\<close>

definition selectRule :: "PolicyRule list \<Rightarrow> int \<Rightarrow> PolicyRule" where
  "selectRule policy mergedCount =
     (let sorted = sort_key minMerged policy;
          selected = sorted ! 0
      in scan_rules mergedCount selected sorted)"

definition allowedOpenFromPolicy :: "PolicyRule list \<Rightarrow> int \<Rightarrow> int" where
  "allowedOpenFromPolicy policy mergedCount =
     (if length policy = 0 then 1 else allowedOpen (selectRule policy mergedCount))"

subsection \<open>The same function over a store of arrays\<close>

text \<open>
  To speak about mutation, arrays live in a store: an array reference is an index into
  the store. \<open>[...policy]\<close> allocates a new array holding the elements of \<open>policy\<close>, and
  \<open>.sort\<close> sorts the array it is called on in place and returns it.
\<close>

type_synonym store = "PolicyRule list list"

definition spread_copy :: "store \<Rightarrow> nat \<Rightarrow> store \<times> nat" where
  "spread_copy h a = (h @ [h ! a], length h)"

definition sort_in_place :: "store \<Rightarrow> nat \<Rightarrow> store \<times> nat" where
  "sort_in_place h a = (h[a := sort_key minMerged (h ! a)], a)"

definition allowedOpenFromPolicy_store :: "store \<Rightarrow> nat \<Rightarrow> int \<Rightarrow> store \<times> int" where
  "allowedOpenFromPolicy_store h policy mergedCount =
     (if length (h ! policy) = 0 then (h, 1)
      else let (h1, copy) = spread_copy h policy;
               (h2, sorted) = sort_in_place h1 copy;
               selected = (h2 ! sorted) ! 0
           in (h2, allowedOpen (scan_rules mergedCount selected (h2 ! sorted))))"

section \<open>Count normalisation (run, lines 112 to 117)\<close>

definition currentIncluded :: "bool \<Rightarrow> bool \<Rightarrow> bool" where
  "currentIncluded countDrafts isDraft = (if countDrafts then True else \<not> isDraft)"

definition effectiveOpen :: "int \<Rightarrow> bool \<Rightarrow> bool \<Rightarrow> int" where
  "effectiveOpen openCount countDrafts isDraft =
     openCount - (if currentIncluded countDrafts isDraft then 1 else 0)"

section \<open>Errors, log lines and effects\<close>

text \<open>An error thrown by a call of the GitHub API: its message and its HTTP status.\<close>

datatype api_error = ApiError (err_message: string) (err_status: "int option")

text \<open>
  Why the \<open>policy\<close> input is refused: \<open>JSON.parse\<close> threw, the value is not an array,
  a rule lacks a numeric field, or a rule is \<open>null\<close> (reading its field throws).
\<close>

datatype policy_error = SyntaxError | NotArray | InvalidRule nat | NullRule nat

datatype error =
    InputRequired string
  | PolicyError policy_error
  | ApiFailure api_error
  | RevertFailed string
  | CloseFailed string

text \<open>
  A log line is recorded by the place that writes it and the values it interpolates,
  not as rendered text.
\<close>

datatype logmsg =
    InvalidTeamSlug string
  | ExcludedByTeam string string string
  | MembershipFailedSkipping string string string api_error
  | MembershipFailedContinuing string string string api_error
  | EventNotSupported string
  | NoPullRequestPayload
  | NoAuthor
  | BotAuthor string "string option"
  | NoToken
  | InExcludeUsers string
  | ExcludedByTeams string
  | DraftNotCounted int
  | NotOpen int string
  | GraphQLFailedSkipping string
  | Summary string int int int int bool bool
  | BackCommentFailedSkipping string
  | BackCommentFailedContinuing string
  | NoBackToDraftComment
  | RevertFailedSkipping string
  | RevertedToDraft int
  | CommentFailedSkipping string
  | CommentFailedContinuing string
  | CloseFailedSkipping string
  | LabelFailed string string
  | ClosedByPolicy int
  | WithinLimit int

datatype pull_change = SetDraft | SetClosed

text \<open>
  The calls the action makes. A membership query carries the position of its slug in
  \<open>excludeTeams\<close>, which tells the queries of one run apart.
\<close>

datatype api_call =
    GetMembershipForUserInOrg nat string string string
  | GraphqlSearch string string string
  | CreateComment string string int string
  | UpdatePull string string int pull_change
  | AddLabels string string int "string list"

datatype effect =
    Info logmsg
  | Warning logmsg
  | SetOutput string string
  | SetFailed error
  | Call api_call

section \<open>The world one invocation runs in\<close>

record pr_user =
  login :: "string option"
  user_type :: "string option"

record pull_request =
  pr_number :: int
  pr_user :: "pr_user option"
  pr_draft :: "bool option"
  pr_state :: "string option"

record membership =
  m_status :: int
  m_state :: string

record PRCounts =
  openCount :: int
  mergedCount :: int

text \<open>
  The inputs of the action, the environment, the event, and what each call of the API
  answers in this run: \<open>Inl e\<close> and \<open>Some e\<close> are a call that throws \<open>e\<close>.
  \<open>JSON_parse\<close> is the platform's \<open>JSON.parse\<close>, \<open>None\<close> where it throws.
\<close>

record world =
  input :: "string \<Rightarrow> string"
  env :: "string \<Rightarrow> string option"
  JSON_parse :: "string \<Rightarrow> json option"
  eventName :: string
  payload_pull_request :: "pull_request option"
  payload_action :: "string option"
  repo_owner :: string
  repo_repo :: string
  teams_getMembershipForUserInOrg :: "nat \<Rightarrow> string \<Rightarrow> string \<Rightarrow> string \<Rightarrow> api_error + membership"
  graphql :: "string \<Rightarrow> string \<Rightarrow> string \<Rightarrow> api_error + PRCounts"
  issues_createComment :: "string \<Rightarrow> string \<Rightarrow> int \<Rightarrow> string \<Rightarrow> api_error option"
  pulls_update :: "string \<Rightarrow> string \<Rightarrow> int \<Rightarrow> pull_change \<Rightarrow> api_error option"
  issues_addLabels :: "string \<Rightarrow> string \<Rightarrow> int \<Rightarrow> string list \<Rightarrow> api_error option"

section \<open>Reading the inputs (src/config.ts)\<close>

record Inputs =
  policy :: "PolicyRule list"
  closeComment :: string
  excludeUsers :: "string list"
  excludeTeams :: "string list"
  countDrafts :: bool
  skipOnFailure :: bool
  revertToDraftOnReady :: bool
  backToDraftComment :: string
  labelWhenClosed :: "string option"
  token :: "string option"

text \<open>
  \<open>core.getInput(name)\<close> returns the trimmed value of the input, the empty string when it
  is not set; with \<open>required: true\<close> it throws when the value is empty.
\<close>

definition getInput :: "world \<Rightarrow> string \<Rightarrow> string" where
  "getInput w name = trim (input w name)"

definition getInput_required :: "world \<Rightarrow> string \<Rightarrow> error + string" where
  "getInput_required w name =
     (if input w name = [] then Inl (InputRequired name) else Inr (trim (input w name)))"

text \<open>
  \<open>r.allowedOpen\<close> and \<open>r.minMerged\<close> on a value that is not \<open>null\<close>: an object has the
  property it lists; an array, a string, a number and a boolean have neither.
\<close>

fun get_prop :: "json \<Rightarrow> string \<Rightarrow> json option" where
  "get_prop (JObj kvs) k = map_of kvs k"
| "get_prop v k = None"

fun typeof_number :: "json option \<Rightarrow> bool" where
  "typeof_number (Some (JNum n)) = True"
| "typeof_number v = False"

text \<open>The \<open>forEach\<close> over the parsed array: the first offending index throws.\<close>

fun check_rules :: "nat \<Rightarrow> json list \<Rightarrow> policy_error option" where
  "check_rules idx [] = None"
| "check_rules idx (r # rs) =
     (if r = JNull then Some (NullRule idx)
      else if \<not> typeof_number (get_prop r ''allowedOpen'') \<or> \<not> typeof_number (get_prop r ''minMerged'')
      then Some (InvalidRule idx)
      else check_rules (Suc idx) rs)"

fun num_of :: "json option \<Rightarrow> int" where
  "num_of (Some (JNum n)) = n"
| "num_of v = 0"

definition rule_of :: "json \<Rightarrow> PolicyRule" where
  "rule_of r = \<lparr>minMerged = num_of (get_prop r ''minMerged''), allowedOpen = num_of (get_prop r ''allowedOpen'')\<rparr>"

definition parsePolicy :: "world \<Rightarrow> string \<Rightarrow> policy_error + PolicyRule list" where
  "parsePolicy w policyStr =
     (case JSON_parse w policyStr of
        None \<Rightarrow> Inl SyntaxError
      | Some (JArr rs) \<Rightarrow>
          (case check_rules 0 rs of
             Some e \<Rightarrow> Inl e
           | None \<Rightarrow> Inr (map rule_of rs))
      | Some v \<Rightarrow> Inl NotArray)"

definition nonEmpty :: "string list \<Rightarrow> string list" where
  "nonEmpty xs = filter (\<lambda>v. length v \<noteq> 0) xs"

definition parseListOrJsonArray :: "world \<Rightarrow> string \<Rightarrow> string list" where
  "parseListOrJsonArray w raw =
     (let trimmed = trim raw in
      if trimmed = [] then []
      else (case JSON_parse w trimmed of
              Some (JArr parsed) \<Rightarrow> nonEmpty (map (\<lambda>v. trim (String_of v)) parsed)
            | _ \<Rightarrow> nonEmpty (map trim (split_on CHR '','' trimmed))))"

definition input_or :: "world \<Rightarrow> string \<Rightarrow> string \<Rightarrow> string" where
  "input_or w name dflt = (if getInput w name = [] then dflt else getInput w name)"

definition parseInputs :: "world \<Rightarrow> error + Inputs" where
  "parseInputs w =
     (case getInput_required w ''policy'' of
        Inl e \<Rightarrow> Inl e
      | Inr policyInput \<Rightarrow>
     (case parsePolicy w (trim policyInput) of
        Inl e \<Rightarrow> Inl (PolicyError e)
      | Inr rules \<Rightarrow>
     (case getInput_required w ''closeComment'' of
        Inl e \<Rightarrow> Inl e
      | Inr comment \<Rightarrow>
          Inr \<lparr>policy = rules,
               closeComment = comment,
               excludeUsers = parseListOrJsonArray w (input_or w ''excludeUsers'' []),
               excludeTeams = parseListOrJsonArray w (input_or w ''excludeTeams'' []),
               countDrafts = (toLowerCase (input_or w ''countDrafts'' ''true'') = ''true''),
               skipOnFailure = (toLowerCase (input_or w ''skipOnFailure'' ''true'') = ''true''),
               revertToDraftOnReady =
                 (toLowerCase (input_or w ''revertToDraftOnReady'' ''true'') = ''true''),
               backToDraftComment = input_or w ''backToDraftComment'' [],
               labelWhenClosed =
                 (if getInput w ''labelWhenClosed'' = [] then None
                  else Some (getInput w ''labelWhenClosed'')),
               token =
                 or_else (Some (getInput w ''token''))
                   (or_else (env w ''GITHUB_TOKEN'')
                      (or_else (env w ''TOKEN'') None))\<rparr>)))"

section \<open>Exclusions (src/exclusions.ts)\<close>

record TeamSlug =
  org :: string
  team :: string

definition parseTeamSlug :: "string \<Rightarrow> TeamSlug option" where
  "parseTeamSlug slug =
     (let parts = nonEmpty (map trim (split_on CHR ''/'' slug)) in
      if length parts \<noteq> 2 then None
      else Some \<lparr>org = parts ! 0, team = parts ! 1\<rparr>)"

definition prepend :: "effect list \<Rightarrow> effect list \<times> 'a \<Rightarrow> effect list \<times> 'a" where
  "prepend es r = (es @ fst r, snd r)"

text \<open>
  The loop over the configured slugs; \<open>i\<close> is the position of the slug the loop is at.
\<close>

fun isUserExcludedByTeams ::
  "world \<Rightarrow> nat \<Rightarrow> string list \<Rightarrow> string \<Rightarrow> bool \<Rightarrow> effect list \<times> bool" where
  "isUserExcludedByTeams w i [] username skip = ([], False)"
| "isUserExcludedByTeams w i (slug # rest) username skip =
     (case parseTeamSlug slug of
        None \<Rightarrow>
          prepend [Warning (InvalidTeamSlug slug)]
            (isUserExcludedByTeams w (Suc i) rest username skip)
      | Some parsed \<Rightarrow>
          (case teams_getMembershipForUserInOrg w i (org parsed) (team parsed) username of
             Inr res \<Rightarrow>
               if m_status res = 200 \<and> m_state res = ''active''
               then ([Call (GetMembershipForUserInOrg i (org parsed) (team parsed) username),
                      Info (ExcludedByTeam username (org parsed) (team parsed))], True)
               else prepend [Call (GetMembershipForUserInOrg i (org parsed) (team parsed) username)]
                      (isUserExcludedByTeams w (Suc i) rest username skip)
           | Inl e \<Rightarrow>
               if skip
               then ([Call (GetMembershipForUserInOrg i (org parsed) (team parsed) username),
                      Warning (MembershipFailedSkipping (org parsed) (team parsed) username e)],
                     True)
               else prepend
                      [Call (GetMembershipForUserInOrg i (org parsed) (team parsed) username),
                       Warning (MembershipFailedContinuing (org parsed) (team parsed) username e)]
                      (isUserExcludedByTeams w (Suc i) rest username skip)))"

definition isUserExcludedByList :: "string list \<Rightarrow> string \<Rightarrow> bool" where
  "isUserExcludedByList users username =
     (toLowerCase username \<in> set (map toLowerCase users))"

section \<open>Counting the author's pull requests (src/graphql.ts)\<close>

definition fetchAuthorPRCounts ::
  "world \<Rightarrow> string \<Rightarrow> string \<Rightarrow> string \<Rightarrow> string \<Rightarrow> bool \<Rightarrow> api_call \<times> (api_error + PRCounts)" where
  "fetchAuthorPRCounts w tok own rep auth drafts =
     (let base = ''repo:'' @ own @ ''/'' @ rep @ '' is:pr author:'' @ auth;
          openQuery = (if drafts then base @ '' is:open'' else base @ '' is:open -is:draft'');
          mergedQuery = base @ '' is:merged''
      in (GraphqlSearch tok openQuery mergedQuery, graphql w tok openQuery mergedQuery))"

section \<open>The run (src/main.ts)\<close>

subsection \<open>Rendering a comment\<close>

definition isWordChar :: "char \<Rightarrow> bool" where
  "isWordChar c =
     (let n = (of_char c :: nat)
      in (48 \<le> n \<and> n \<le> 57) \<or> (65 \<le> n \<and> n \<le> 90) \<or> n = 95 \<or> (97 \<le> n \<and> n \<le> 122))"

text \<open>\<open>String(vars[k] ?? "")\<close>, for the properties the object literal lists.\<close>

definition lookup_var :: "(string \<times> json) list \<Rightarrow> string \<Rightarrow> string" where
  "lookup_var vars k = String_of (case map_of vars k of Some v \<Rightarrow> v | None \<Rightarrow> JStr [])"

text \<open>
  \<open>template.replace(/\{(\w+)\}/g, ...)\<close>: from left to right, an opening brace followed by
  one or more word characters and a closing brace is replaced by the value of the name.
\<close>

function renderTemplate :: "string \<Rightarrow> (string \<times> json) list \<Rightarrow> string" where
  "renderTemplate [] vars = []"
| "renderTemplate (c # cs) vars =
     (if c = CHR ''{'' \<and> takeWhile isWordChar cs \<noteq> []
         \<and> take 1 (dropWhile isWordChar cs) = ''}''
      then lookup_var vars (takeWhile isWordChar cs)
           @ renderTemplate (drop 1 (dropWhile isWordChar cs)) vars
      else c # renderTemplate cs vars)"
  by pat_completeness auto
termination
  by (relation "measure (\<lambda>(t, vars). length t)")
     (auto simp: less_Suc_eq_le intro: order_trans [OF diff_le_self length_dropWhile_le])

subsection \<open>The stages of the run\<close>

text \<open>
  A stage returns the effects it performed, in order, and how it ended: the run goes on
  with a value, the run returns, or an error is thrown to the handler of \<open>run\<close>.
\<close>

datatype 'a step = Continue 'a | Return | Throw error

definition bind_step ::
  "effect list \<times> 'a step \<Rightarrow> ('a \<Rightarrow> effect list \<times> 'b step) \<Rightarrow> effect list \<times> 'b step" where
  "bind_step r f =
     (case snd r of
        Continue x \<Rightarrow> prepend (fst r) (f x)
      | Return \<Rightarrow> (fst r, Return)
      | Throw e \<Rightarrow> (fst r, Throw e))"

text \<open>The local constants of \<open>run\<close> in scope once the exclusion gates are passed.\<close>

record entered =
  inputs :: Inputs
  owner :: string
  repo :: string
  pull_number :: int
  author :: string
  isDraft :: bool
  prState :: string
  token_used :: string

definition author_login :: "pull_request \<Rightarrow> string option" where
  "author_login pr = (case pr_user pr of None \<Rightarrow> None | Some u \<Rightarrow> login u)"

definition author_type :: "pull_request \<Rightarrow> string option" where
  "author_type pr = (case pr_user pr of None \<Rightarrow> None | Some u \<Rightarrow> user_type u)"

definition isBotUser :: "string option \<Rightarrow> string \<Rightarrow> bool" where
  "isBotUser authorType auth =
     ((case authorType of
         None \<Rightarrow> False
       | Some t \<Rightarrow> t \<noteq> [] \<and> toLowerCase t = ''bot'')
      \<or> endsWith (toLowerCase auth) ''[bot]'')"

text \<open>Lines 68 to 76: the exclusion by teams.\<close>

definition team_gate :: "world \<Rightarrow> entered \<Rightarrow> effect list \<times> entered step" where
  "team_gate w E =
     (if length (excludeTeams (inputs E)) > 0
      then (let r = isUserExcludedByTeams w 0 (excludeTeams (inputs E)) (author E)
                      (skipOnFailure (inputs E))
            in if snd r
               then (fst r @ [Info (ExcludedByTeams (author E)), SetOutput ''decision'' ''skipped''],
                     Return)
               else (fst r, Continue E))
      else ([], Continue E))"

text \<open>Lines 30 to 66: the author, the bot check, the token and the list of excluded users.\<close>

definition author_gates :: "world \<Rightarrow> Inputs \<Rightarrow> pull_request \<Rightarrow> effect list \<times> entered step" where
  "author_gates w inp pr =
     (case author_login pr of
        None \<Rightarrow> ([Warning NoAuthor, SetOutput ''decision'' ''skipped''], Return)
      | Some auth \<Rightarrow>
     if auth = []
     then ([Warning NoAuthor, SetOutput ''decision'' ''skipped''], Return)
     else if isBotUser (author_type pr) auth
     then ([Info (BotAuthor auth (author_type pr)), SetOutput ''decision'' ''skipped''], Return)
     else
     (case or_else (token inp) (env w ''GITHUB_TOKEN'') of
        None \<Rightarrow> ([Warning NoToken, SetOutput ''decision'' ''skipped''], Return)
      | Some tok \<Rightarrow>
     if tok = []
     then ([Warning NoToken, SetOutput ''decision'' ''skipped''], Return)
     else if isUserExcludedByList (excludeUsers inp) auth
     then ([Info (InExcludeUsers auth), SetOutput ''decision'' ''skipped''], Return)
     else team_gate w
            \<lparr>inputs = inp,
             owner = repo_owner w,
             repo = repo_repo w,
             pull_number = pr_number pr,
             author = auth,
             isDraft = (pr_draft pr = Some True),
             prState = (if truthy (pr_state pr) then the (pr_state pr) else ''open''),
             token_used = tok\<rparr>))"

text \<open>Lines 14 to 28: the inputs, the event and its payload; then the gates above.\<close>

definition entry_gates :: "world \<Rightarrow> effect list \<times> entered step" where
  "entry_gates w =
     (case parseInputs w of
        Inl e \<Rightarrow> ([], Throw e)
      | Inr inp \<Rightarrow>
     if eventName w \<noteq> ''pull_request'' \<and> eventName w \<noteq> ''pull_request_target''
     then ([Info (EventNotSupported (eventName w)), SetOutput ''decision'' ''skipped''], Return)
     else
     (case payload_pull_request w of
        None \<Rightarrow> ([Info NoPullRequestPayload, SetOutput ''decision'' ''skipped''], Return)
      | Some pr \<Rightarrow> author_gates w inp pr))"

text \<open>Lines 78 to 110: the draft gate, the state gate and the count query.\<close>

definition counts_gates :: "world \<Rightarrow> entered \<Rightarrow> effect list \<times> PRCounts step" where
  "counts_gates w E =
     (if \<not> countDrafts (inputs E) \<and> isDraft E
      then ([Info (DraftNotCounted (pull_number E)), SetOutput ''decision'' ''ok''], Return)
      else if prState E \<noteq> ''open''
      then ([Info (NotOpen (pull_number E) (prState E)), SetOutput ''decision'' ''skipped''], Return)
      else
        (let q = fetchAuthorPRCounts w (token_used E) (owner E) (repo E) (author E)
                   (countDrafts (inputs E))
         in case snd q of
              Inl e \<Rightarrow>
                if skipOnFailure (inputs E)
                then ([Call (fst q), Warning (GraphQLFailedSkipping (err_message e)),
                       SetOutput ''decision'' ''skipped''], Return)
                else ([Call (fst q)], Throw (ApiFailure e))
            | Inr counts \<Rightarrow> ([Call (fst q)], Continue counts)))"

text \<open>Lines 116 to 119: the two numbers the decision compares.\<close>

definition effectiveOpen_of :: "entered \<Rightarrow> PRCounts \<Rightarrow> int" where
  "effectiveOpen_of E C = effectiveOpen (openCount C) (countDrafts (inputs E)) (isDraft E)"

definition allowedOpen_of :: "entered \<Rightarrow> PRCounts \<Rightarrow> int" where
  "allowedOpen_of E C = allowedOpenFromPolicy (policy (inputs E)) (mergedCount C)"

definition template_vars :: "entered \<Rightarrow> PRCounts \<Rightarrow> (string \<times> json) list" where
  "template_vars E C =
     [(''author'', JStr (author E)),
      (''openCount'', JNum (effectiveOpen_of E C)),
      (''allowedOpen'', JNum (allowedOpen_of E C)),
      (''mergedCount'', JNum (mergedCount C))]"

text \<open>Lines 164 to 185: the pull request is set back to draft.\<close>

definition revertToDraft :: "world \<Rightarrow> entered \<Rightarrow> effect list \<times> unit step" where
  "revertToDraft w E =
     (case pulls_update w (owner E) (repo E) (pull_number E) SetDraft of
        Some e \<Rightarrow>
          if skipOnFailure (inputs E)
          then ([Call (UpdatePull (owner E) (repo E) (pull_number E) SetDraft),
                 Warning (RevertFailedSkipping (err_message e)),
                 SetOutput ''decision'' ''skipped''], Return)
          else ([Call (UpdatePull (owner E) (repo E) (pull_number E) SetDraft)],
                Throw (RevertFailed (err_message e)))
      | None \<Rightarrow>
          ([Call (UpdatePull (owner E) (repo E) (pull_number E) SetDraft),
            Info (RevertedToDraft (pull_number E)),
            SetOutput ''decision'' ''reverted_to_draft''], Return))"

text \<open>Lines 135 to 186: the optional comment, then the revert.\<close>

definition backCommentBody :: "entered \<Rightarrow> PRCounts \<Rightarrow> string" where
  "backCommentBody E C = renderTemplate (trim (backToDraftComment (inputs E))) (template_vars E C)"

definition revertBranch :: "world \<Rightarrow> entered \<Rightarrow> PRCounts \<Rightarrow> effect list \<times> unit step" where
  "revertBranch w E C =
     (if length (trim (backToDraftComment (inputs E))) > 0
      then (case issues_createComment w (owner E) (repo E) (pull_number E) (backCommentBody E C) of
              Some e \<Rightarrow>
                if skipOnFailure (inputs E)
                then ([Call (CreateComment (owner E) (repo E) (pull_number E) (backCommentBody E C)),
                       Warning (BackCommentFailedSkipping (err_message e)),
                       SetOutput ''decision'' ''skipped''], Return)
                else prepend
                       [Call (CreateComment (owner E) (repo E) (pull_number E) (backCommentBody E C)),
                        Warning (BackCommentFailedContinuing (err_message e))]
                       (revertToDraft w E)
            | None \<Rightarrow>
                prepend
                  [Call (CreateComment (owner E) (repo E) (pull_number E) (backCommentBody E C))]
                  (revertToDraft w E))
      else prepend [Info NoBackToDraftComment] (revertToDraft w E))"

text \<open>Lines 232 to 248: the optional label, then the decision \<open>closed\<close>.\<close>

definition labelAndFinish :: "world \<Rightarrow> entered \<Rightarrow> effect list \<times> unit step" where
  "labelAndFinish w E =
     (case labelWhenClosed (inputs E) of
        None \<Rightarrow>
          ([Info (ClosedByPolicy (pull_number E)), SetOutput ''decision'' ''closed''], Return)
      | Some label \<Rightarrow>
          if length (trim label) > 0
          then (case issues_addLabels w (owner E) (repo E) (pull_number E) [label] of
                  Some e \<Rightarrow>
                    ([Call (AddLabels (owner E) (repo E) (pull_number E) [label]),
                      Warning (LabelFailed label (err_message e)),
                      Info (ClosedByPolicy (pull_number E)),
                      SetOutput ''decision'' ''closed''], Return)
                | None \<Rightarrow>
                    ([Call (AddLabels (owner E) (repo E) (pull_number E) [label]),
                      Info (ClosedByPolicy (pull_number E)),
                      SetOutput ''decision'' ''closed''], Return))
          else ([Info (ClosedByPolicy (pull_number E)), SetOutput ''decision'' ''closed''],
                Return))"

text \<open>Lines 214 to 230: the pull request is closed.\<close>

definition closePull :: "world \<Rightarrow> entered \<Rightarrow> effect list \<times> unit step" where
  "closePull w E =
     (case pulls_update w (owner E) (repo E) (pull_number E) SetClosed of
        Some e \<Rightarrow>
          if skipOnFailure (inputs E)
          then ([Call (UpdatePull (owner E) (repo E) (pull_number E) SetClosed),
                 Warning (CloseFailedSkipping (err_message e)),
                 SetOutput ''decision'' ''skipped''], Return)
          else ([Call (UpdatePull (owner E) (repo E) (pull_number E) SetClosed)],
                Throw (CloseFailed (err_message e)))
      | None \<Rightarrow>
          prepend [Call (UpdatePull (owner E) (repo E) (pull_number E) SetClosed)]
            (labelAndFinish w E))"

text \<open>Lines 188 to 248: the comment, then the close.\<close>

definition closeCommentBody :: "entered \<Rightarrow> PRCounts \<Rightarrow> string" where
  "closeCommentBody E C = renderTemplate (closeComment (inputs E)) (template_vars E C)"

definition closeBranch :: "world \<Rightarrow> entered \<Rightarrow> PRCounts \<Rightarrow> effect list \<times> unit step" where
  "closeBranch w E C =
     (case issues_createComment w (owner E) (repo E) (pull_number E) (closeCommentBody E C) of
        Some e \<Rightarrow>
          if skipOnFailure (inputs E)
          then ([Call (CreateComment (owner E) (repo E) (pull_number E) (closeCommentBody E C)),
                 Warning (CommentFailedSkipping (err_message e)),
                 SetOutput ''decision'' ''skipped''], Return)
          else prepend
                 [Call (CreateComment (owner E) (repo E) (pull_number E) (closeCommentBody E C)),
                  Warning (CommentFailedContinuing (err_message e))]
                 (closePull w E)
      | None \<Rightarrow>
          prepend [Call (CreateComment (owner E) (repo E) (pull_number E) (closeCommentBody E C))]
            (closePull w E))"

text \<open>Lines 112 to 252: the outputs (\<open>report\<close>), then the comparison and the branch taken.\<close>

definition report :: "entered \<Rightarrow> PRCounts \<Rightarrow> effect list" where
  "report E C =
     [Info (Summary (author E) (openCount C) (effectiveOpen_of E C) (mergedCount C)
              (allowedOpen_of E C) (isDraft E) (countDrafts (inputs E))),
      SetOutput ''openCount'' (String_num (effectiveOpen_of E C)),
      SetOutput ''mergedCount'' (String_num (mergedCount C)),
      SetOutput ''allowedOpen'' (String_num (allowedOpen_of E C))]"

definition verdict :: "world \<Rightarrow> entered \<Rightarrow> PRCounts \<Rightarrow> effect list \<times> unit step" where
  "verdict w E C =
     (if effectiveOpen_of E C \<ge> allowedOpen_of E C
      then (if \<not> countDrafts (inputs E) \<and> revertToDraftOnReady (inputs E)
               \<and> payload_action w = Some ''ready_for_review''
            then revertBranch w E C
            else closeBranch w E C)
      else ([Info (WithinLimit (pull_number E)), SetOutput ''decision'' ''ok''], Return))"

definition decide :: "world \<Rightarrow> entered \<Rightarrow> PRCounts \<Rightarrow> effect list \<times> unit step" where
  "decide w E C = prepend (report E C) (verdict w E C)"

definition run_body :: "world \<Rightarrow> effect list \<times> unit step" where
  "run_body w =
     bind_step (entry_gates w) (\<lambda>E. bind_step (counts_gates w E) (\<lambda>C. decide w E C))"

text \<open>The handler of \<open>run\<close>: a thrown error becomes \<open>core.setFailed\<close>.\<close>

definition run :: "world \<Rightarrow> effect list" where
  "run w =
     (case snd (run_body w) of
        Throw e \<Rightarrow> fst (run_body w) @ [SetFailed e]
      | _ \<Rightarrow> fst (run_body w))"

section \<open>What a run shows\<close>

text \<open>The values a run gave to the output \<open>k\<close>, in order.\<close>

fun output_values :: "string \<Rightarrow> effect list \<Rightarrow> string list" where
  "output_values k [] = []"
| "output_values k (SetOutput k' v # es) =
     (if k' = k then v # output_values k es else output_values k es)"
| "output_values k (e # es) = output_values k es"

text \<open>The calls a run made, in order.\<close>

fun calls :: "effect list \<Rightarrow> api_call list" where
  "calls [] = []"
| "calls (Call c # es) = c # calls es"
| "calls (e # es) = calls es"

fun isEnforcementCall :: "api_call \<Rightarrow> bool" where
  "isEnforcementCall (CreateComment ow re n b) = True"
| "isEnforcementCall (UpdatePull ow re n ch) = True"
| "isEnforcementCall (AddLabels ow re n ls) = True"
| "isEnforcementCall c = False"

fun isFailed :: "effect \<Rightarrow> bool" where
  "isFailed (SetFailed e) = True"
| "isFailed e = False"

fun isMembershipCall :: "api_call \<Rightarrow> bool" where
  "isMembershipCall (GetMembershipForUserInOrg i o1 t u) = True"
| "isMembershipCall c = False"

fun isSearchCall :: "api_call \<Rightarrow> bool" where
  "isSearchCall (GraphqlSearch tok q1 q2) = True"
| "isSearchCall c = False"

text \<open>Whether the run passed every gate and fetched the counts.\<close>

definition counts_fetched :: "world \<Rightarrow> bool" where
  "counts_fetched w =
     (case snd (entry_gates w) of
        Continue E \<Rightarrow> (case snd (counts_gates w E) of Continue C \<Rightarrow> True | _ \<Rightarrow> False)
      | _ \<Rightarrow> False)"

text \<open>
  The effects a run can perform before the counts are fetched, apart from setting an
  output: log lines and membership queries.
\<close>

fun isTeamEffect :: "effect \<Rightarrow> bool" where
  "isTeamEffect (Info m) = True"
| "isTeamEffect (Warning m) = True"
| "isTeamEffect (Call c) = isMembershipCall c"
| "isTeamEffect e = False"

text \<open>
  The effects of an enforcement branch: log lines, the calls that comment, update and
  label, and a decision other than \<open>ok\<close>.
\<close>

fun isEnforcementEffect :: "effect \<Rightarrow> bool" where
  "isEnforcementEffect (Info m) = True"
| "isEnforcementEffect (Warning m) = True"
| "isEnforcementEffect (Call c) = isEnforcementCall c"
| "isEnforcementEffect (SetOutput k v) = (k = ''decision'' \<and> v \<noteq> ''ok'')"
| "isEnforcementEffect (SetFailed e) = False"


text \<open>A rule that passes the check of \<open>parseInputs\<close>.\<close>

definition valid_rule :: "json \<Rightarrow> bool" where
  "valid_rule r =
     (r \<noteq> JNull \<and> typeof_number (get_prop r ''allowedOpen'')
        \<and> typeof_number (get_prop r ''minMerged''))"

section \<open>Example invocations\<close>

text \<open>The table of the README.\<close>

definition policy_example :: "PolicyRule list" where
  "policy_example =
     [\<lparr>minMerged = 0, allowedOpen = 1\<rparr>,
      \<lparr>minMerged = 1, allowedOpen = 2\<rparr>,
      \<lparr>minMerged = 3, allowedOpen = 3\<rparr>]"

text \<open>The text \<open>[{"minMerged":0,"allowedOpen":1}]\<close> and the value it parses to.\<close>

definition policy_text :: string where
  "policy_text =
     ''[{'' @ [CHR 0x22] @ ''minMerged'' @ [CHR 0x22] @ '':0,''
       @ [CHR 0x22] @ ''allowedOpen'' @ [CHR 0x22] @ '':1}]''"

definition policy_json :: json where
  "policy_json = JArr [JObj [(''minMerged'', JNum 0), (''allowedOpen'', JNum 1)]]"

text \<open>
  A pull request opened by \<open>alice\<close>, who has two open pull requests (this one included)
  and none merged; every input but \<open>policy\<close> and \<open>closeComment\<close> has its default, and
  every call succeeds.
\<close>

definition world_example :: world where
  "world_example =
     \<lparr>input = (\<lambda>name. if name = ''policy'' then policy_text
                       else if name = ''closeComment''
                       then ''Hi {author}: {openCount} open, {allowedOpen} allowed''
                       else []),
      env = (\<lambda>name. if name = ''GITHUB_TOKEN'' then Some ''t0'' else None),
      JSON_parse = (\<lambda>s. if s = policy_text then Some policy_json else None),
      eventName = ''pull_request'',
      payload_pull_request =
        Some \<lparr>pr_number = 7,
              pr_user = Some \<lparr>login = Some ''alice'', user_type = Some ''User''\<rparr>,
              pr_draft = Some False,
              pr_state = Some ''open''\<rparr>,
      payload_action = Some ''opened'',
      repo_owner = ''acme'',
      repo_repo = ''widgets'',
      teams_getMembershipForUserInOrg =
        (\<lambda>i o1 t u. Inr \<lparr>m_status = 200, m_state = ''pending''\<rparr>),
      graphql = (\<lambda>tok q1 q2. Inr \<lparr>openCount = 2, mergedCount = 0\<rparr>),
      issues_createComment = (\<lambda>ow re n b. None),
      pulls_update = (\<lambda>ow re n ch. None),
      issues_addLabels = (\<lambda>ow re n ls. None)\<rparr>"

definition inputs_example :: Inputs where
  "inputs_example =
     \<lparr>policy = [\<lparr>minMerged = 0, allowedOpen = 1\<rparr>],
      closeComment = ''Hi {author}: {openCount} open, {allowedOpen} allowed'',
      excludeUsers = [],
      excludeTeams = [],
      countDrafts = True,
      skipOnFailure = True,
      revertToDraftOnReady = True,
      backToDraftComment = [],
      labelWhenClosed = None,
      token = Some ''t0''\<rparr>"

definition entered_example :: entered where
  "entered_example =
     \<lparr>inputs = inputs_example,
      owner = ''acme'',
      repo = ''widgets'',
      pull_number = 7,
      author = ''alice'',
      isDraft = False,
      prState = ''open'',
      token_used = ''t0''\<rparr>"

definition search_example :: api_call where
  "search_example =
     GraphqlSearch ''t0'' ''repo:acme/widgets is:pr author:alice is:open''
       ''repo:acme/widgets is:pr author:alice is:merged''"

text \<open>The same, with one open pull request only.\<close>

definition world_one_open :: world where
  "world_one_open =
     world_example\<lparr>graphql := (\<lambda>tok q1 q2. Inr \<lparr>openCount = 1, mergedCount = 0\<rparr>)\<rparr>"


text \<open>The same as \<open>world_example\<close>, on an event that is not a pull request event.\<close>

definition world_push :: world where
  "world_push = world_example\<lparr>eventName := ''push''\<rparr>"

text \<open>A draft pull request, with \<open>countDrafts\<close> set to \<open>false\<close>.\<close>

definition world_draft :: world where
  "world_draft =
     world_example
       \<lparr>input := (\<lambda>name. if name = ''countDrafts'' then ''false'' else input world_example name),
        payload_pull_request :=
          Some \<lparr>pr_number = 7,
                pr_user = Some \<lparr>login = Some ''alice'', user_type = Some ''User''\<rparr>,
                pr_draft = Some True,
                pr_state = Some ''open''\<rparr>\<rparr>"

definition entered_draft :: entered where
  "entered_draft =
     entered_example\<lparr>inputs := inputs_example\<lparr>countDrafts := False\<rparr>, isDraft := True\<rparr>"


text \<open>
  Two teams are excluded; the membership query for the first one fails, the second one
  answers that \<open>alice\<close> is not an active member.
\<close>

definition world_team_fails :: world where
  "world_team_fails =
     world_example
       \<lparr>input := (\<lambda>name. if name = ''excludeTeams'' then ''acme/core, acme/docs''
                         else input world_example name),
        teams_getMembershipForUserInOrg :=
          (\<lambda>i o1 t u. if i = 0 then Inl (ApiError ''Not Found'' (Some 404))
                       else Inr \<lparr>m_status = 200, m_state = ''pending''\<rparr>)\<rparr>"

definition world_team_fails_strict :: world where
  "world_team_fails_strict =
     world_team_fails
       \<lparr>input := (\<lambda>name. if name = ''skipOnFailure'' then ''false''
                         else input world_team_fails name)\<rparr>"

text \<open>The policy \<open>[]\<close>.\<close>

definition world_empty_policy :: world where
  "world_empty_policy =
     world_example
       \<lparr>input := (\<lambda>name. if name = ''policy'' then ''[]'' else input world_example name),
        JSON_parse := (\<lambda>s. if s = ''[]'' then Some (JArr []) else None)\<rparr>"

text \<open>The policy \<open>[{"minMerged":-1,"allowedOpen":-2}]\<close>.\<close>

definition negative_policy_text :: string where
  "negative_policy_text =
     ''[{'' @ [CHR 0x22] @ ''minMerged'' @ [CHR 0x22] @ '':-1,''
       @ [CHR 0x22] @ ''allowedOpen'' @ [CHR 0x22] @ '':-2}]''"

definition world_negative_policy :: world where
  "world_negative_policy =
     world_example
       \<lparr>input := (\<lambda>name. if name = ''policy'' then negative_policy_text
                         else input world_example name),
        JSON_parse :=
          (\<lambda>s. if s = negative_policy_text
                then Some (JArr [JObj [(''minMerged'', JNum (- 1)), (''allowedOpen'', JNum (- 2))]])
                else None)\<rparr>"

text \<open>The policy \<open>[{"minMerged":0}]\<close>, whose rule lacks \<open>allowedOpen\<close>.\<close>

definition incomplete_policy_text :: string where
  "incomplete_policy_text =
     ''[{'' @ [CHR 0x22] @ ''minMerged'' @ [CHR 0x22] @ '':0}]''"

definition world_incomplete_rule :: world where
  "world_incomplete_rule =
     world_example
       \<lparr>input := (\<lambda>name. if name = ''policy'' then incomplete_policy_text
                         else input world_example name),
        JSON_parse :=
          (\<lambda>s. if s = incomplete_policy_text
                then Some (JArr [JObj [(''minMerged'', JNum 0)]])
                else None)\<rparr>"

section \<open>Auxiliary facts\<close>

lemma last_dropWhile_keep: "dropWhile P xs \<noteq> [] \<Longrightarrow> last (dropWhile P xs) = last xs"
  by (induction xs) (auto split: if_splits)

lemma strip_end_keeps_head:
  assumes "xs \<noteq> []" and "\<not> P (hd xs)"
  shows "dropWhile P (rev (dropWhile P (rev xs))) = rev (dropWhile P (rev xs))"
proof -
  define ys where "ys = dropWhile P (rev xs)"
  show ?thesis
  proof (cases "ys = []")
    case True
    then show ?thesis unfolding ys_def [symmetric] by simp
  next
    case False
    have "hd (rev ys) = last ys" using False by (simp add: hd_rev)
    also have "\<dots> = last (rev xs)" using False unfolding ys_def by (rule last_dropWhile_keep)
    also have "\<dots> = hd xs" using assms(1) by (simp add: last_rev)
    finally have "\<not> P (hd (rev ys))" using assms(2) by simp
    then have "dropWhile P (rev ys) = rev ys" by (simp add: dropWhile_eq_self_iff)
    then show ?thesis unfolding ys_def .
  qed
qed

lemma trim_idem: "trim (trim s) = trim s"
proof (cases "dropWhile isWhiteSpace s = []")
  case True
  then show ?thesis unfolding trim_def by (simp only: rev.simps dropWhile.simps)
next
  case False
  have "\<not> isWhiteSpace (hd (dropWhile isWhiteSpace s))" using False by (rule hd_dropWhile)
  from strip_end_keeps_head [of "dropWhile isWhiteSpace s" isWhiteSpace, OF False this]
  show ?thesis unfolding trim_def by (simp only: rev_rev_ident dropWhile_idem)
qed

lemma scan_rules_takeWhile:
  "scan_rules m sel xs = last (sel # takeWhile (\<lambda>r. minMerged r \<le> m) xs)"
  by (induction xs arbitrary: sel) auto

lemma takeWhile_sorted_filter:
  "sorted (map f xs) \<Longrightarrow> takeWhile (\<lambda>r. f r \<le> (m::int)) xs = filter (\<lambda>r. f r \<le> m) xs"
  by (induction xs) (auto intro!: filter_False[symmetric])

lemma select_below:
  assumes "\<forall>r\<in>set P. \<not> minMerged r \<le> m"
  shows "selectRule P m = sort_key minMerged P ! 0"
proof -
  let ?S = "sort_key minMerged P"
  have "takeWhile (\<lambda>r. minMerged r \<le> m) ?S = filter (\<lambda>r. minMerged r \<le> m) ?S"
    by (rule takeWhile_sorted_filter) (rule sorted_sort_key)
  also have "\<dots> = []" using assms by (auto simp: filter_empty_conv)
  finally show ?thesis by (simp add: selectRule_def scan_rules_takeWhile)
qed

lemma sorted_first_least:
  assumes "P \<noteq> []" and "r \<in> set P"
  shows "minMerged (sort_key minMerged P ! 0) \<le> minMerged r"
proof -
  let ?S = "sort_key minMerged P"
  have s: "sorted (map minMerged ?S)" by (rule sorted_sort_key)
  from assms(2) have "r \<in> set ?S" by simp
  then obtain j where j: "j < length ?S" "?S ! j = r" by (metis in_set_conv_nth)
  from s j(1) have "map minMerged ?S ! 0 \<le> map minMerged ?S ! j"
    by (intro sorted_nth_mono) auto
  moreover have "0 < length ?S" using assms(1) by simp
  ultimately show ?thesis using j by simp
qed

lemma select_at_or_above:
  assumes "r0 \<in> set P" and "minMerged r0 \<le> m"
  defines "S \<equiv> sort_key minMerged P"
  defines "i \<equiv> length (filter (\<lambda>r. minMerged r \<le> m) P) - 1"
  shows "i < length S" and "selectRule P m = S ! i" and "minMerged (S ! i) \<le> m"
    and "\<forall>j<length S. minMerged (S ! j) \<le> m \<longrightarrow> j \<le> i \<and> minMerged (S ! j) \<le> minMerged (S ! i)"
    and "S ! i = last (filter (\<lambda>r. minMerged r = minMerged (S ! i)) P)"
proof -
  let ?p = "\<lambda>r. minMerged r \<le> m"
  let ?T = "takeWhile ?p S"
  have srt: "sorted (map minMerged S)" unfolding S_def by (rule sorted_sort_key)
  have TF: "?T = filter ?p S" by (rule takeWhile_sorted_filter) (rule srt)
  have "length (filter ?p S) = length (filter ?p P)"
    unfolding S_def by (simp add: filter_sort)
  then have lenT: "length ?T = Suc i"
    using assms(1,2) unfolding i_def TF
    by (metis One_nat_def Suc_pred filter_empty_conv length_greater_0_conv)
  have "length ?T \<le> length S" by (rule length_takeWhile_le)
  with lenT show iS: "i < length S" by simp
  have Tne: "?T \<noteq> []" using lenT by auto
  have lastT: "last ?T = S ! i"
    using lenT Tne takeWhile_nth[of i ?p S] by (simp add: last_conv_nth)
  show sel: "selectRule P m = S ! i"
    using Tne lastT by (simp add: selectRule_def scan_rules_takeWhile S_def[symmetric])
  have "S ! i \<in> set ?T" using lastT Tne last_in_set by metis
  then show pi: "minMerged (S ! i) \<le> m" by (auto dest: set_takeWhileD)
  show "\<forall>j<length S. minMerged (S ! j) \<le> m \<longrightarrow> j \<le> i \<and> minMerged (S ! j) \<le> minMerged (S ! i)"
  proof (intro allI impI)
    fix j assume j: "j < length S" "minMerged (S ! j) \<le> m"
    have ji: "j \<le> i"
    proof (rule ccontr)
      assume "\<not> j \<le> i"
      then have n: "Suc i \<le> j" by simp
      with j(1) have "length ?T < length S" using lenT by simp
      then have "\<not> ?p (S ! Suc i)" using nth_length_takeWhile[of ?p S] lenT by simp
      moreover have "map minMerged S ! Suc i \<le> map minMerged S ! j"
        using srt n j(1) by (intro sorted_nth_mono) auto
      ultimately show False using j n by simp
    qed
    moreover have "map minMerged S ! j \<le> map minMerged S ! i"
      using srt ji iS by (intro sorted_nth_mono) auto
    ultimately show "j \<le> i \<and> minMerged (S ! j) \<le> minMerged (S ! i)"
      using j(1) iS by simp
  qed
  let ?k = "minMerged (S ! i)"
  have "filter (\<lambda>r. minMerged r = ?k) P = filter (\<lambda>r. minMerged r = ?k) S"
    unfolding S_def by (simp add: sort_key_stable)
  also have "\<dots> = filter (\<lambda>r. minMerged r = ?k) (filter ?p S)"
    using pi by (auto intro!: filter_cong)
  also have "\<dots> = filter (\<lambda>r. minMerged r = ?k) (butlast ?T @ [last ?T])"
    using Tne TF by simp
  also have "\<dots> = filter (\<lambda>r. minMerged r = ?k) (butlast ?T) @ [S ! i]"
    using lastT by simp
  finally show "S ! i = last (filter (\<lambda>r. minMerged r = minMerged (S ! i)) P)"
    by simp
qed

lemma calls_append [simp]: "calls (xs @ ys) = calls xs @ calls ys"
  by (induction xs rule: calls.induct) auto

lemma output_values_append [simp]:
  "output_values k (xs @ ys) = output_values k xs @ output_values k ys"
  by (induction k xs rule: output_values.induct) auto

lemma set_calls: "c \<in> set (calls tr) \<longleftrightarrow> Call c \<in> set tr"
  by (induction tr rule: calls.induct) auto

lemma team_effects_outputs: "list_all isTeamEffect tr \<Longrightarrow> output_values k tr = []"
  by (induction k tr rule: output_values.induct) auto

lemma team_effects_calls: "list_all isTeamEffect tr \<Longrightarrow> list_all isMembershipCall (calls tr)"
  by (induction tr rule: calls.induct) auto

lemma team_effects_not_failed: "list_all isTeamEffect tr \<Longrightarrow> \<not> list_ex isFailed tr"
  by (induction tr) (auto elim: isTeamEffect.elims)

lemma teams_trace: "list_all isTeamEffect (fst (isUserExcludedByTeams w i ts u s))"
  by (induction ts arbitrary: i) (auto simp: prepend_def split: option.splits sum.splits)

lemma team_gate_Continue:
  "snd (team_gate w E) = Continue E' \<Longrightarrow>
     E' = E \<and> list_all isTeamEffect (fst (team_gate w E))"
  by (auto simp: team_gate_def Let_def teams_trace split: if_splits)

lemma team_gate_Return:
  "snd (team_gate w E) = Return \<Longrightarrow>
     \<exists>tr. fst (team_gate w E) = tr @ [SetOutput ''decision'' ''skipped'']
          \<and> list_all isTeamEffect tr"
  by (auto simp: team_gate_def Let_def teams_trace split: if_splits)

lemma team_gate_Throw: "snd (team_gate w E) \<noteq> Throw e"
  by (auto simp: team_gate_def Let_def split: if_splits)

lemma author_gates_Continue:
  "snd (author_gates w inp pr) = Continue E \<Longrightarrow>
     inputs E = inp \<and> list_all isTeamEffect (fst (author_gates w inp pr))"
  by (auto simp: author_gates_def split: option.splits if_splits dest!: team_gate_Continue)

lemma author_gates_Return:
  "snd (author_gates w inp pr) = Return \<Longrightarrow>
     \<exists>tr. fst (author_gates w inp pr) = tr @ [SetOutput ''decision'' ''skipped'']
          \<and> list_all isTeamEffect tr"
  by (auto simp: author_gates_def split: option.splits if_splits dest!: team_gate_Return)

lemma author_gates_Throw: "snd (author_gates w inp pr) \<noteq> Throw e"
  by (auto simp: author_gates_def team_gate_Throw split: option.splits if_splits)

lemma entry_Continue:
  "snd (entry_gates w) = Continue E \<Longrightarrow>
     parseInputs w = Inr (inputs E) \<and> list_all isTeamEffect (fst (entry_gates w))"
  by (auto simp: entry_gates_def split: sum.splits option.splits if_splits
      dest!: author_gates_Continue)

lemma entry_Return:
  "snd (entry_gates w) = Return \<Longrightarrow>
     \<exists>tr. fst (entry_gates w) = tr @ [SetOutput ''decision'' ''skipped'']
          \<and> list_all isTeamEffect tr"
  by (auto simp: entry_gates_def split: sum.splits option.splits if_splits
      dest!: author_gates_Return)

lemma entry_Throw:
  "snd (entry_gates w) = Throw e \<Longrightarrow> fst (entry_gates w) = [] \<and> parseInputs w = Inl e"
  by (auto simp: entry_gates_def author_gates_Throw split: sum.splits option.splits if_splits)

lemma counts_Continue:
  "snd (counts_gates w E) = Continue C \<Longrightarrow>
     \<exists>c. fst (counts_gates w E) = [Call c] \<and> isSearchCall c"
  by (auto simp: counts_gates_def fetchAuthorPRCounts_def Let_def split: sum.splits if_splits)

lemma counts_Throw:
  "snd (counts_gates w E) = Throw e \<Longrightarrow>
     \<exists>c. fst (counts_gates w E) = [Call c] \<and> isSearchCall c"
  by (auto simp: counts_gates_def fetchAuthorPRCounts_def Let_def split: sum.splits if_splits)

lemma counts_Return_draft:
  "snd (counts_gates w E) = Return \<Longrightarrow> \<not> countDrafts (inputs E) \<Longrightarrow> isDraft E \<Longrightarrow>
     fst (counts_gates w E) = [Info (DraftNotCounted (pull_number E)), SetOutput ''decision'' ''ok'']"
  by (auto simp: counts_gates_def)

lemma counts_Return:
  "snd (counts_gates w E) = Return \<Longrightarrow>
     \<exists>tr d. fst (counts_gates w E) = tr @ [SetOutput ''decision'' d]
          \<and> output_values k tr = [] \<and> \<not> list_ex isFailed tr
          \<and> \<not> list_ex isEnforcementCall (calls tr) \<and> \<not> list_ex isMembershipCall (calls tr)"
  by (auto simp: counts_gates_def fetchAuthorPRCounts_def Let_def split: sum.splits if_splits)

lemma enforcement_effects_outputs:
  "list_all isEnforcementEffect tr \<Longrightarrow> k \<noteq> ''decision'' \<Longrightarrow> output_values k tr = []"
  by (induction k tr rule: output_values.induct) auto

lemma enforcement_effects_not_ok:
  "list_all isEnforcementEffect tr \<Longrightarrow> ''ok'' \<notin> set (output_values ''decision'' tr)"
  by (induction "''decision''" tr rule: output_values.induct) auto

lemma enforcement_effects_not_failed:
  "list_all isEnforcementEffect tr \<Longrightarrow> \<not> list_ex isFailed tr"
  by (induction tr) (auto elim: isEnforcementEffect.elims)

lemma enforcement_effects_calls:
  "list_all isEnforcementEffect tr \<Longrightarrow> list_all isEnforcementCall (calls tr)"
  by (induction tr rule: calls.induct) auto

lemma revertToDraft_effects: "list_all isEnforcementEffect (fst (revertToDraft w E))"
  by (simp add: revertToDraft_def split: option.split)

lemma revertBranch_effects: "list_all isEnforcementEffect (fst (revertBranch w E C))"
  by (simp add: revertBranch_def prepend_def revertToDraft_effects split: option.split)

lemma labelAndFinish_effects: "list_all isEnforcementEffect (fst (labelAndFinish w E))"
  by (simp add: labelAndFinish_def split: option.split)

lemma closePull_effects: "list_all isEnforcementEffect (fst (closePull w E))"
  by (simp add: closePull_def prepend_def labelAndFinish_effects split: option.split)

lemma closeBranch_effects: "list_all isEnforcementEffect (fst (closeBranch w E C))"
  by (simp add: closeBranch_def prepend_def closePull_effects split: option.split)

lemma revertToDraft_decisions:
  "length (output_values ''decision'' (fst (revertToDraft w E)))
     = (case snd (revertToDraft w E) of Return \<Rightarrow> 1 | _ \<Rightarrow> 0)
   \<and> snd (revertToDraft w E) \<noteq> Continue u"
  by (simp add: revertToDraft_def split: option.split)

lemma revertBranch_decisions:
  "length (output_values ''decision'' (fst (revertBranch w E C)))
     = (case snd (revertBranch w E C) of Return \<Rightarrow> 1 | _ \<Rightarrow> 0)
   \<and> snd (revertBranch w E C) \<noteq> Continue u"
  by (simp add: revertBranch_def prepend_def revertToDraft_decisions split: option.split)

lemma labelAndFinish_decisions:
  "length (output_values ''decision'' (fst (labelAndFinish w E)))
     = (case snd (labelAndFinish w E) of Return \<Rightarrow> 1 | _ \<Rightarrow> 0)
   \<and> snd (labelAndFinish w E) \<noteq> Continue u"
  by (simp add: labelAndFinish_def split: option.split)

lemma closePull_decisions:
  "length (output_values ''decision'' (fst (closePull w E)))
     = (case snd (closePull w E) of Return \<Rightarrow> 1 | _ \<Rightarrow> 0)
   \<and> snd (closePull w E) \<noteq> Continue u"
  by (simp add: closePull_def prepend_def labelAndFinish_decisions split: option.split)

lemma closeBranch_decisions:
  "length (output_values ''decision'' (fst (closeBranch w E C)))
     = (case snd (closeBranch w E C) of Return \<Rightarrow> 1 | _ \<Rightarrow> 0)
   \<and> snd (closeBranch w E C) \<noteq> Continue u"
  by (simp add: closeBranch_def prepend_def closePull_decisions split: option.split)

lemma revertToDraft_calls: "list_ex isEnforcementCall (calls (fst (revertToDraft w E)))"
  by (simp add: revertToDraft_def split: option.split)

lemma revertBranch_calls: "list_ex isEnforcementCall (calls (fst (revertBranch w E C)))"
  by (simp add: revertBranch_def prepend_def revertToDraft_calls split: option.split)

lemma closeBranch_calls: "list_ex isEnforcementCall (calls (fst (closeBranch w E C)))"
  by (simp add: closeBranch_def prepend_def split: option.split)

lemma decide_verdict: "decide w E C = (report E C @ fst (verdict w E C), snd (verdict w E C))"
  by (simp add: decide_def prepend_def)

lemma report_outputs:
  "output_values ''decision'' (report E C) = [] \<and>
   output_values ''openCount'' (report E C) = [String_num (effectiveOpen_of E C)] \<and>
   output_values ''mergedCount'' (report E C) = [String_num (mergedCount C)] \<and>
   output_values ''allowedOpen'' (report E C) = [String_num (allowedOpen_of E C)] \<and>
   calls (report E C) = [] \<and> \<not> list_ex isFailed (report E C)"
  by (simp add: report_def)

lemma membership_calls_not_enforcement:
  "list_all isMembershipCall cs \<Longrightarrow> \<not> list_ex isEnforcementCall cs \<and> \<not> list_ex isSearchCall cs"
  by (induction cs) (auto elim: isMembershipCall.elims)

lemma verdict_effects:
  "allowedOpen_of E C \<le> effectiveOpen_of E C \<Longrightarrow> list_all isEnforcementEffect (fst (verdict w E C))"
  by (simp add: verdict_def revertBranch_effects closeBranch_effects)

lemma verdict_decisions:
  "length (output_values ''decision'' (fst (verdict w E C)))
     = (case snd (verdict w E C) of Return \<Rightarrow> 1 | _ \<Rightarrow> 0)
   \<and> snd (verdict w E C) \<noteq> Continue u"
  by (simp add: verdict_def revertBranch_decisions closeBranch_decisions)

lemma verdict_numeric:
  "k \<noteq> ''decision'' \<Longrightarrow> output_values k (fst (verdict w E C)) = []"
  by (cases "allowedOpen_of E C \<le> effectiveOpen_of E C")
     (simp_all add: enforcement_effects_outputs verdict_effects, simp add: verdict_def)

lemma verdict_not_failed: "\<not> list_ex isFailed (fst (verdict w E C))"
  by (cases "allowedOpen_of E C \<le> effectiveOpen_of E C")
     (simp_all add: enforcement_effects_not_failed verdict_effects, simp add: verdict_def)

lemma run_passed:
  assumes "entry_gates w = (t1, Continue E)" and "counts_gates w E = (t2, Continue C)"
  shows "run w = t1 @ t2 @ report E C @ fst (verdict w E C)
                 @ (case snd (verdict w E C) of Throw e \<Rightarrow> [SetFailed e] | _ \<Rightarrow> [])"
    and "list_all isTeamEffect t1" and "\<exists>q. t2 = [Call q] \<and> isSearchCall q"
proof -
  show "run w = t1 @ t2 @ report E C @ fst (verdict w E C)
                 @ (case snd (verdict w E C) of Throw e \<Rightarrow> [SetFailed e] | _ \<Rightarrow> [])"
    using assms
    by (simp add: run_def run_body_def bind_step_def prepend_def decide_verdict split: step.splits)
  show "list_all isTeamEffect t1" using entry_Continue [of w E] assms(1) by simp
  show "\<exists>q. t2 = [Call q] \<and> isSearchCall q" using counts_Continue [of w E C] assms(2) by simp
qed

lemma suffix_outputs [simp]:
  "output_values k (case r of Throw e \<Rightarrow> [SetFailed e] | _ \<Rightarrow> []) = []"
  "calls (case r of Throw e \<Rightarrow> [SetFailed e] | _ \<Rightarrow> []) = []"
  by (cases r; simp)+

lemma list_ex_append_failed [simp]:
  "list_ex isFailed (case r of Throw e \<Rightarrow> [SetFailed e] | _ \<Rightarrow> []) \<longleftrightarrow> (\<exists>e. r = Throw e)"
  by (cases r) auto

lemma run_outputs:
  "length (output_values k (run w)) =
     (if k = ''decision'' then (if list_ex isFailed (run w) then 0 else 1)
      else if k \<in> {''openCount'', ''allowedOpen'', ''mergedCount''} \<and> counts_fetched w then 1
      else 0)"
proof (cases "snd (entry_gates w)")
  case (Throw e)
  then have "run w = [SetFailed e]"
    using entry_Throw [of w e] by (simp add: run_def run_body_def bind_step_def)
  then show ?thesis using Throw by (simp add: counts_fetched_def)
next
  case Return
  then obtain tr where tr: "fst (entry_gates w) = tr @ [SetOutput ''decision'' ''skipped'']"
    "list_all isTeamEffect tr" using entry_Return by blast
  have "run w = tr @ [SetOutput ''decision'' ''skipped'']"
    using Return tr(1) by (simp add: run_def run_body_def bind_step_def)
  then show ?thesis
    using Return team_effects_outputs [OF tr(2)] team_effects_not_failed [OF tr(2)]
    by (simp add: counts_fetched_def)
next
  case (Continue E)
  then have eg: "entry_gates w = (fst (entry_gates w), Continue E)"
    by (metis prod.collapse)
  have t1: "list_all isTeamEffect (fst (entry_gates w))"
    using entry_Continue [OF Continue] by simp
  note t1o = team_effects_outputs [OF t1] team_effects_not_failed [OF t1]
  show ?thesis
  proof (cases "snd (counts_gates w E)")
    case (Throw e)
    then obtain c where c: "fst (counts_gates w E) = [Call c]" using counts_Throw by blast
    have "run w = fst (entry_gates w) @ [Call c, SetFailed e]"
      using Continue Throw c by (simp add: run_def run_body_def bind_step_def prepend_def)
    then show ?thesis using Continue Throw t1o by (simp add: counts_fetched_def)
  next
    case Return
    from counts_Return [OF Return, of k] obtain tr d where
      tr: "fst (counts_gates w E) = tr @ [SetOutput ''decision'' d]"
      "output_values k tr = []" "\<not> list_ex isFailed tr" by blast
    have "run w = fst (entry_gates w) @ tr @ [SetOutput ''decision'' d]"
      using Continue Return tr(1) by (simp add: run_def run_body_def bind_step_def prepend_def)
    then show ?thesis using Continue Return t1o tr(2,3) by (simp add: counts_fetched_def)
  next
    case C: (Continue C)
    then have cg: "counts_gates w E = (fst (counts_gates w E), Continue C)"
      by (metis prod.collapse)
    note r = run_passed [OF eg cg]
    from r(3) obtain q where q: "fst (counts_gates w E) = [Call q]" by blast
    have cf: "counts_fetched w" using Continue C by (simp add: counts_fetched_def)
    have nc: "\<And>u. snd (verdict w E C) \<noteq> Continue u" using verdict_decisions by blast
    show ?thesis
    proof (cases "k = ''decision''")
      case True
      have "length (output_values ''decision'' (run w))
              = (case snd (verdict w E C) of Return \<Rightarrow> 1 | _ \<Rightarrow> 0)"
        using r(1) q t1o verdict_decisions [of w E C] by (simp add: report_outputs)
      moreover have "list_ex isFailed (run w) \<longleftrightarrow> (\<exists>e. snd (verdict w E C) = Throw e)"
        using r(1) q t1o verdict_not_failed [of w E C] by (simp add: report_outputs)
      ultimately show ?thesis using True nc by (cases "snd (verdict w E C)") auto
    next
      case False
      have "output_values k (run w) = output_values k (report E C)"
        using r(1) q t1o verdict_numeric [OF False] by simp
      then show ?thesis using False cf by (auto simp: report_def)
    qed
  qed
qed

lemma entry_example: "entry_gates world_example = ([], Continue entered_example)"
  by code_simp

lemma counts_example:
  "counts_gates world_example entered_example
     = ([Call search_example], Continue \<lparr>openCount = 2, mergedCount = 0\<rparr>)"
  by code_simp

lemma entry_one_open: "entry_gates world_one_open = ([], Continue entered_example)"
  by code_simp

lemma counts_one_open:
  "counts_gates world_one_open entered_example
     = ([Call search_example], Continue \<lparr>openCount = 1, mergedCount = 0\<rparr>)"
  by code_simp

lemma entry_draft: "entry_gates world_draft = ([], Continue entered_draft)"
  by code_simp

lemma check_rules_valid: "check_rules idx rs = None \<longleftrightarrow> list_all valid_rule rs"
  by (induction rs arbitrary: idx) (auto simp: valid_rule_def)

lemma parsePolicy_Inr:
  "(\<exists>rules. parsePolicy w s = Inr rules)
     \<longleftrightarrow> (\<exists>rs. JSON_parse w s = Some (JArr rs) \<and> list_all valid_rule rs)"
  by (auto simp: parsePolicy_def check_rules_valid [of 0, symmetric] split: option.splits json.splits)

lemma parsePolicy_rules:
  "JSON_parse w s = Some (JArr rs) \<Longrightarrow> list_all valid_rule rs \<Longrightarrow>
     parsePolicy w s = Inr (map rule_of rs)"
  by (simp add: parsePolicy_def check_rules_valid [of 0, symmetric])













lemma loop_calls:
  "Call (GetMembershipForUserInOrg j o1 t u) \<in> set (fst (isUserExcludedByTeams w k ts un s)) \<Longrightarrow>
     k \<le> j \<and> j < k + length ts \<and> u = un
     \<and> parseTeamSlug (ts ! (j - k)) = Some \<lparr>org = o1, team = t\<rparr>"
proof (induction ts arbitrary: k)
  case Nil
  then show ?case by simp
next
  case (Cons slug rest)
  show ?case
  proof (cases "Call (GetMembershipForUserInOrg j o1 t u)
                  \<in> set (fst (isUserExcludedByTeams w (Suc k) rest un s))")
    case True
    from Cons.IH [OF True] show ?thesis by (auto simp: nth_Cons')
  next
    case False
    with Cons.prems show ?thesis
      by (auto simp: prepend_def split: option.splits sum.splits if_splits)
  qed
qed

lemma loop_first:
  "case parseTeamSlug slug of
     None \<Rightarrow> Warning (InvalidTeamSlug slug) \<in> set (fst (isUserExcludedByTeams w k (slug # rest) un s))
   | Some p \<Rightarrow> Call (GetMembershipForUserInOrg k (org p) (team p) un)
                 \<in> set (fst (isUserExcludedByTeams w k (slug # rest) un s))"
  by (auto simp: prepend_def split: option.splits sum.splits if_splits)

lemma loop_failure_skips:
  "Call (GetMembershipForUserInOrg i o1 t u) \<in> set (fst (isUserExcludedByTeams w k ts un True)) \<Longrightarrow>
   teams_getMembershipForUserInOrg w i o1 t u = Inl e \<Longrightarrow>
     snd (isUserExcludedByTeams w k ts un True)
     \<and> Warning (MembershipFailedSkipping o1 t u e) \<in> set (fst (isUserExcludedByTeams w k ts un True))"
proof (induction ts arbitrary: k)
  case Nil
  then show ?case by simp
next
  case (Cons slug rest)
  show ?case
  proof (cases "Call (GetMembershipForUserInOrg i o1 t u)
                  \<in> set (fst (isUserExcludedByTeams w (Suc k) rest un True))")
    case True
    from Cons.IH [OF True Cons.prems(2)] loop_calls [OF True] Cons.prems
    show ?thesis
      by (auto simp: prepend_def split: option.splits sum.splits if_splits)
  next
    case False
    with Cons.prems show ?thesis
      by (auto simp: prepend_def split: option.splits sum.splits if_splits)
  qed
qed

lemma loop_failure_stops:
  "Call (GetMembershipForUserInOrg i o1 t u) \<in> set (fst (isUserExcludedByTeams w k ts un True)) \<Longrightarrow>
   teams_getMembershipForUserInOrg w i o1 t u = Inl e \<Longrightarrow>
   Call (GetMembershipForUserInOrg j o2 t2 u2) \<in> set (fst (isUserExcludedByTeams w k ts un True)) \<Longrightarrow>
     j \<le> i"
proof (induction ts arbitrary: k)
  case Nil
  then show ?case by simp
next
  case (Cons slug rest)
  show ?case
  proof (cases "Call (GetMembershipForUserInOrg i o1 t u)
                  \<in> set (fst (isUserExcludedByTeams w (Suc k) rest un True))")
    case True
    note ki = loop_calls [OF True]
    show ?thesis
    proof (cases "Call (GetMembershipForUserInOrg j o2 t2 u2)
                  \<in> set (fst (isUserExcludedByTeams w (Suc k) rest un True))")
      case T2: True
      from Cons.IH [OF True Cons.prems(2) T2] show ?thesis .
    next
      case False
      with Cons.prems(3) ki show ?thesis
        by (auto simp: prepend_def split: option.splits sum.splits if_splits)
    qed
  next
    case False
    with Cons.prems show ?thesis
      by (auto simp: prepend_def split: option.splits sum.splits if_splits)
  qed
qed

lemma loop_failure_continues:
  "Call (GetMembershipForUserInOrg i o1 t u) \<in> set (fst (isUserExcludedByTeams w k ts un False)) \<Longrightarrow>
   teams_getMembershipForUserInOrg w i o1 t u = Inl e \<Longrightarrow>
     Warning (MembershipFailedContinuing o1 t u e) \<in> set (fst (isUserExcludedByTeams w k ts un False))
     \<and> (Suc i < k + length ts \<longrightarrow>
          (case parseTeamSlug (ts ! (Suc i - k)) of
             None \<Rightarrow> Warning (InvalidTeamSlug (ts ! (Suc i - k)))
                      \<in> set (fst (isUserExcludedByTeams w k ts un False))
           | Some p \<Rightarrow> Call (GetMembershipForUserInOrg (Suc i) (org p) (team p) un)
                         \<in> set (fst (isUserExcludedByTeams w k ts un False))))"
proof (induction ts arbitrary: k)
  case Nil
  then show ?case by simp
next
  case (Cons slug rest)
  let ?inner = "isUserExcludedByTeams w (Suc k) rest un False"
  let ?outer = "isUserExcludedByTeams w k (slug # rest) un False"
  show ?case
  proof (cases "Call (GetMembershipForUserInOrg i o1 t u) \<in> set (fst ?inner)")
    case True
    note ki = loop_calls [OF True]
    have sub: "set (fst ?inner) \<subseteq> set (fst ?outer)"
      using Cons.prems(1) True ki
      by (auto simp: prepend_def split: option.splits sum.splits if_splits)
    have idx: "(slug # rest) ! (Suc i - k) = rest ! (Suc i - Suc k)"
      using ki by (simp add: nth_Cons')
    from Cons.IH [OF True Cons.prems(2)] sub idx ki show ?thesis
      by (auto split: option.splits)
  next
    case False
    with Cons.prems have hd: "i = k"
      "?outer = prepend [Call (GetMembershipForUserInOrg i o1 t u),
                         Warning (MembershipFailedContinuing o1 t u e)] ?inner"
      by (auto simp: prepend_def split: option.splits sum.splits if_splits)
    have w: "Warning (MembershipFailedContinuing o1 t u e) \<in> set (fst ?outer)"
      unfolding hd(2) by (simp add: prepend_def)
    have nxt: "Suc i < k + length (slug # rest) \<longrightarrow>
          (case parseTeamSlug ((slug # rest) ! (Suc i - k)) of
             None \<Rightarrow> Warning (InvalidTeamSlug ((slug # rest) ! (Suc i - k))) \<in> set (fst ?outer)
           | Some p \<Rightarrow> Call (GetMembershipForUserInOrg (Suc i) (org p) (team p) un)
                         \<in> set (fst ?outer))"
    proof
      assume "Suc i < k + length (slug # rest)"
      then obtain slug' rest' where rest: "rest = slug' # rest'"
        using hd(1) by (cases rest) auto
      have sub: "set (fst ?inner) \<subseteq> set (fst ?outer)" unfolding hd(2) by (auto simp: prepend_def)
      from loop_first [of slug' w "Suc k" rest' un False] sub
      show "case parseTeamSlug ((slug # rest) ! (Suc i - k)) of
             None \<Rightarrow> Warning (InvalidTeamSlug ((slug # rest) ! (Suc i - k))) \<in> set (fst ?outer)
           | Some p \<Rightarrow> Call (GetMembershipForUserInOrg (Suc i) (org p) (team p) un)
                         \<in> set (fst ?outer)"
        unfolding rest hd(1) by (auto split: option.splits)
    qed
    from w nxt show ?thesis by blast
  qed
qed

lemma team_gate_call:
  assumes "Call c \<in> set (fst (team_gate w E))"
  defines "r \<equiv> isUserExcludedByTeams w 0 (excludeTeams (inputs E)) (author E)
                  (skipOnFailure (inputs E))"
  shows "Call c \<in> set (fst r)"
    and "team_gate w E =
           (if snd r
            then (fst r @ [Info (ExcludedByTeams (author E)), SetOutput ''decision'' ''skipped''],
                  Return)
            else (fst r, Continue E))"
  using assms by (auto simp: team_gate_def Let_def split: if_splits)

lemma author_gates_call:
  "Call c \<in> set (fst (author_gates w inp pr)) \<Longrightarrow>
     \<exists>E. author_gates w inp pr = team_gate w E \<and> inputs E = inp"
  unfolding author_gates_def
  by (simp split: option.splits if_splits)
     (metis (no_types) entered.select_convs(1))+

lemma entry_call:
  "Call c \<in> set (fst (entry_gates w)) \<Longrightarrow>
     \<exists>E. parseInputs w = Inr (inputs E) \<and> entry_gates w = team_gate w E"
  by (auto simp: entry_gates_def split: sum.splits option.splits if_splits
      dest!: author_gates_call)

lemma entry_in_run: "set (fst (entry_gates w)) \<subseteq> set (run w)"
  by (auto simp: run_def run_body_def bind_step_def prepend_def split: step.splits)

lemma run_membership_call:
  assumes "Call c \<in> set (run w)" and "isMembershipCall c"
  shows "Call c \<in> set (fst (entry_gates w))"
proof -
  have ne: "\<not> isEnforcementCall c" using assms(2) by (cases c) auto
  have ns: "\<not> isSearchCall c" using assms(2) by (cases c) auto
  show ?thesis
  proof (cases "snd (entry_gates w)")
    case (Throw e)
    then have "run w = [SetFailed e]"
      using entry_Throw [of w e] by (simp add: run_def run_body_def bind_step_def)
    with assms(1) show ?thesis by simp
  next
    case Return
    then have "run w = fst (entry_gates w)" by (simp add: run_def run_body_def bind_step_def)
    with assms(1) show ?thesis by simp
  next
    case (Continue E)
    then have eg: "entry_gates w = (fst (entry_gates w), Continue E)"
      by (metis prod.collapse)
    show ?thesis
    proof (cases "snd (counts_gates w E)")
      case (Throw e)
      then obtain q where q: "fst (counts_gates w E) = [Call q]" "isSearchCall q"
        using counts_Throw by blast
      have "run w = fst (entry_gates w) @ [Call q, SetFailed e]"
        using Continue Throw q by (simp add: run_def run_body_def bind_step_def prepend_def)
      with assms(1) q(2) ns show ?thesis by auto
    next
      case Return
      from counts_Return [OF Return, of "''decision''"] obtain tr d where
        tr: "fst (counts_gates w E) = tr @ [SetOutput ''decision'' d]"
        "\<not> list_ex isMembershipCall (calls tr)" by blast
      have "run w = fst (entry_gates w) @ tr @ [SetOutput ''decision'' d]"
        using Continue Return tr(1) by (simp add: run_def run_body_def bind_step_def prepend_def)
      moreover have "Call c \<notin> set tr"
        using tr(2) assms(2) by (auto simp: list_ex_iff set_calls)
      ultimately show ?thesis using assms(1) by simp
    next
      case C: (Continue C)
      then have cg: "counts_gates w E = (fst (counts_gates w E), Continue C)"
        by (metis prod.collapse)
      note r = run_passed [OF eg cg]
      from r(3) obtain q where q: "fst (counts_gates w E) = [Call q]" "isSearchCall q" by blast
      have "Call c \<notin> set (case snd (verdict w E C) of Throw e \<Rightarrow> [SetFailed e] | _ \<Rightarrow> [])"
        by (cases "snd (verdict w E C)") auto
      moreover have "Call c \<notin> set (fst (verdict w E C))"
      proof
        assume v: "Call c \<in> set (fst (verdict w E C))"
        show False
        proof (cases "allowedOpen_of E C \<le> effectiveOpen_of E C")
          case True
          from verdict_effects [OF True] have "list_all isEnforcementCall (calls (fst (verdict w E C)))"
            by (rule enforcement_effects_calls)
          with v ne show False by (auto simp: list_all_iff set_calls)
        next
          case False
          with v show False by (simp add: verdict_def)
        qed
      qed
      ultimately show ?thesis using assms(1) r(1) q ns by (auto simp: report_def)
    qed
  qed
qed

subsection \<open>What passing the gates means\<close>

text \<open>
  When the entry gates continue, the inputs were read, the event is a pull request event
  with a payload, the author is known and is not a bot, a token was found, and the author
  is excluded neither by the list nor by a team. When the later gates continue, the pull
  request is not a draft that does not count, it is open, and the counts were fetched.
\<close>

lemma team_gate_passed:
  "team_gate w E = (t1, Continue E') \<Longrightarrow>
     E' = E
     \<and> \<not> snd (isUserExcludedByTeams w 0 (excludeTeams (inputs E)) (author E)
                (skipOnFailure (inputs E)))"
  by (auto simp: team_gate_def Let_def split: if_splits)

lemma author_gates_passed:
  "author_gates w inp pr = (t1, Continue E) \<Longrightarrow>
     inputs E = inp
     \<and> author_login pr = Some (author E) \<and> author E \<noteq> []
     \<and> \<not> isBotUser (author_type pr) (author E)
     \<and> or_else (token inp) (env w ''GITHUB_TOKEN'') = Some (token_used E) \<and> token_used E \<noteq> []
     \<and> \<not> isUserExcludedByList (excludeUsers inp) (author E)
     \<and> \<not> snd (isUserExcludedByTeams w 0 (excludeTeams inp) (author E) (skipOnFailure inp))"
  by (auto simp: author_gates_def split: option.splits if_splits dest!: team_gate_passed)

lemma entry_gates_passed:
  "entry_gates w = (t1, Continue E) \<Longrightarrow>
     parseInputs w = Inr (inputs E)
     \<and> (eventName w = ''pull_request'' \<or> eventName w = ''pull_request_target'')
     \<and> (\<exists>pr. payload_pull_request w = Some pr
            \<and> author_login pr = Some (author E) \<and> author E \<noteq> []
            \<and> \<not> isBotUser (author_type pr) (author E))
     \<and> or_else (token (inputs E)) (env w ''GITHUB_TOKEN'') = Some (token_used E)
     \<and> token_used E \<noteq> []
     \<and> \<not> isUserExcludedByList (excludeUsers (inputs E)) (author E)
     \<and> \<not> snd (isUserExcludedByTeams w 0 (excludeTeams (inputs E)) (author E)
                (skipOnFailure (inputs E)))"
  by (auto simp: entry_gates_def split: sum.splits option.splits if_splits
      dest!: author_gates_passed)

lemma counts_gates_passed:
  "counts_gates w E = (t2, Continue C) \<Longrightarrow>
     (countDrafts (inputs E) \<or> \<not> isDraft E)
     \<and> prState E = ''open''
     \<and> snd (fetchAuthorPRCounts w (token_used E) (owner E) (repo E) (author E)
              (countDrafts (inputs E))) = Inr C"
  by (auto simp: counts_gates_def Let_def split: sum.splits if_splits)

subsection \<open>The decision and the values a run writes\<close>

lemma closeBranch_updates:
  "Call (UpdatePull ow re n ch) \<in> set (fst (closeBranch w E C)) \<Longrightarrow>
     ow = owner E \<and> re = repo E \<and> n = pull_number E \<and> ch = SetClosed"
  by (auto simp: closeBranch_def closePull_def labelAndFinish_def prepend_def
      split: option.splits if_splits)

lemma revertBranch_updates:
  "Call (UpdatePull ow re n ch) \<in> set (fst (revertBranch w E C)) \<Longrightarrow>
     ow = owner E \<and> re = repo E \<and> n = pull_number E \<and> ch = SetDraft"
  by (auto simp: revertBranch_def revertToDraft_def prepend_def split: option.splits if_splits)

lemma closeBranch_values:
  "set (output_values ''decision'' (fst (closeBranch w E C))) \<subseteq> {''skipped'', ''closed''}"
  by (simp add: closeBranch_def closePull_def labelAndFinish_def prepend_def split: option.split)

lemma revertBranch_values:
  "set (output_values ''decision'' (fst (revertBranch w E C))) \<subseteq> {''skipped'', ''reverted_to_draft''}"
  by (simp add: revertBranch_def revertToDraft_def prepend_def split: option.split)

lemma closeBranch_closed:
  "''closed'' \<in> set (output_values ''decision'' (fst (closeBranch w E C))) \<longleftrightarrow>
     Call (UpdatePull (owner E) (repo E) (pull_number E) SetClosed) \<in> set (fst (closeBranch w E C))
     \<and> pulls_update w (owner E) (repo E) (pull_number E) SetClosed = None"
  by (simp add: closeBranch_def closePull_def labelAndFinish_def prepend_def split: option.split)

lemma revertBranch_reverted:
  "''reverted_to_draft'' \<in> set (output_values ''decision'' (fst (revertBranch w E C))) \<longleftrightarrow>
     Call (UpdatePull (owner E) (repo E) (pull_number E) SetDraft) \<in> set (fst (revertBranch w E C))
     \<and> pulls_update w (owner E) (repo E) (pull_number E) SetDraft = None"
  by (simp add: revertBranch_def revertToDraft_def prepend_def split: option.split)

lemma verdict_values:
  "set (output_values ''decision'' (fst (verdict w E C)))
     \<subseteq> {''ok'', ''skipped'', ''closed'', ''reverted_to_draft''}"
  using closeBranch_values [of w E C] revertBranch_values [of w E C]
  by (auto simp: verdict_def)

lemma verdict_updates:
  "Call (UpdatePull ow re n ch) \<in> set (fst (verdict w E C)) \<Longrightarrow>
     ow = owner E \<and> re = repo E \<and> n = pull_number E"
  using closeBranch_updates [of ow re n ch w E C] revertBranch_updates [of ow re n ch w E C]
  by (auto simp: verdict_def split: if_splits)

lemma verdict_closed:
  "''closed'' \<in> set (output_values ''decision'' (fst (verdict w E C))) \<longleftrightarrow>
     (\<exists>ow re n. Call (UpdatePull ow re n SetClosed) \<in> set (fst (verdict w E C))
        \<and> pulls_update w ow re n SetClosed = None)"
proof -
  have a: "''closed'' \<in> set (output_values ''decision'' (fst (verdict w E C))) \<longleftrightarrow>
     Call (UpdatePull (owner E) (repo E) (pull_number E) SetClosed) \<in> set (fst (verdict w E C))
     \<and> pulls_update w (owner E) (repo E) (pull_number E) SetClosed = None"
    using closeBranch_closed [of w E C] revertBranch_values [of w E C]
      revertBranch_updates [of "owner E" "repo E" "pull_number E" SetClosed w E C]
    by (auto simp: verdict_def)
  show ?thesis using a verdict_updates [of _ _ _ SetClosed w E C] by blast
qed

lemma verdict_reverted:
  "''reverted_to_draft'' \<in> set (output_values ''decision'' (fst (verdict w E C))) \<longleftrightarrow>
     (\<exists>ow re n. Call (UpdatePull ow re n SetDraft) \<in> set (fst (verdict w E C))
        \<and> pulls_update w ow re n SetDraft = None)"
proof -
  have a: "''reverted_to_draft'' \<in> set (output_values ''decision'' (fst (verdict w E C))) \<longleftrightarrow>
     Call (UpdatePull (owner E) (repo E) (pull_number E) SetDraft) \<in> set (fst (verdict w E C))
     \<and> pulls_update w (owner E) (repo E) (pull_number E) SetDraft = None"
    using revertBranch_reverted [of w E C] closeBranch_values [of w E C]
      closeBranch_updates [of "owner E" "repo E" "pull_number E" SetDraft w E C]
    by (auto simp: verdict_def)
  show ?thesis using a verdict_updates [of _ _ _ SetDraft w E C] by blast
qed

lemma verdict_ok:
  "''ok'' \<in> set (output_values ''decision'' (fst (verdict w E C))) \<longleftrightarrow>
     effectiveOpen_of E C < allowedOpen_of E C"
proof (cases "allowedOpen_of E C \<le> effectiveOpen_of E C")
  case True
  from enforcement_effects_not_ok [OF verdict_effects [OF True]] True show ?thesis by simp
next
  case False
  then show ?thesis by (simp add: verdict_def)
qed

lemma counts_Return_value:
  "snd (counts_gates w E) = Return \<Longrightarrow>
     \<exists>tr. fst (counts_gates w E)
            = tr @ [SetOutput ''decision''
                      (if \<not> countDrafts (inputs E) \<and> isDraft E then ''ok'' else ''skipped'')]
          \<and> (\<forall>k. output_values k tr = []) \<and> \<not> list_ex isFailed tr
          \<and> (\<forall>ow re n ch. Call (UpdatePull ow re n ch) \<notin> set tr)"
  by (auto simp: counts_gates_def fetchAuthorPRCounts_def Let_def split: sum.splits if_splits)

lemma counts_not_draft:
  "snd (counts_gates w E) \<noteq> Return \<Longrightarrow> countDrafts (inputs E) \<or> \<not> isDraft E"
  by (auto simp: counts_gates_def)

lemma team_effects_no_update:
  "list_all isTeamEffect tr \<Longrightarrow> Call (UpdatePull ow re n ch) \<notin> set tr"
  by (induction tr) auto


lemma run_cases [case_names InputError EntryReturn GateReturn GateThrow Decided]:
  obtains e where "snd (entry_gates w) = Throw e" and "run w = [SetFailed e]"
  | tr where "snd (entry_gates w) = Return"
      and "run w = tr @ [SetOutput ''decision'' ''skipped'']" and "list_all isTeamEffect tr"
  | t1 E tr where "entry_gates w = (t1, Continue E)" and "snd (counts_gates w E) = Return"
      and "list_all isTeamEffect t1"
      and "run w = t1 @ tr @ [SetOutput ''decision''
                      (if \<not> countDrafts (inputs E) \<and> isDraft E then ''ok'' else ''skipped'')]"
      and "\<forall>k. output_values k tr = []" and "\<not> list_ex isFailed tr"
      and "\<forall>ow re n ch. Call (UpdatePull ow re n ch) \<notin> set tr"
  | t1 E q e where "entry_gates w = (t1, Continue E)" and "snd (counts_gates w E) = Throw e"
      and "list_all isTeamEffect t1" and "isSearchCall q"
      and "run w = t1 @ [Call q, SetFailed e]" and "countDrafts (inputs E) \<or> \<not> isDraft E"
  | t1 E q C where "entry_gates w = (t1, Continue E)"
      and "counts_gates w E = ([Call q], Continue C)"
      and "list_all isTeamEffect t1" and "isSearchCall q"
      and "run w = t1 @ [Call q] @ report E C @ fst (verdict w E C)
                   @ (case snd (verdict w E C) of Throw e \<Rightarrow> [SetFailed e] | _ \<Rightarrow> [])"
      and "countDrafts (inputs E) \<or> \<not> isDraft E"
proof (cases "snd (entry_gates w)")
  case (Throw e)
  then have "run w = [SetFailed e]"
    using entry_Throw [of w e] by (simp add: run_def run_body_def bind_step_def)
  with Throw that(1) show ?thesis by blast
next
  case Return
  then obtain tr where tr: "fst (entry_gates w) = tr @ [SetOutput ''decision'' ''skipped'']"
    "list_all isTeamEffect tr" using entry_Return by blast
  have "run w = tr @ [SetOutput ''decision'' ''skipped'']"
    using Return tr(1) by (simp add: run_def run_body_def bind_step_def)
  with Return tr(2) that(2) show ?thesis by blast
next
  case (Continue E)
  then have eg: "entry_gates w = (fst (entry_gates w), Continue E)"
    by (metis prod.collapse)
  have t1: "list_all isTeamEffect (fst (entry_gates w))"
    using entry_Continue [OF Continue] by simp
  show ?thesis
  proof (cases "snd (counts_gates w E)")
    case (Throw e)
    then obtain q where q: "fst (counts_gates w E) = [Call q]" "isSearchCall q"
      using counts_Throw by blast
    have "run w = fst (entry_gates w) @ [Call q, SetFailed e]"
      using Continue Throw q by (simp add: run_def run_body_def bind_step_def prepend_def)
    moreover have "countDrafts (inputs E) \<or> \<not> isDraft E"
      using Throw counts_not_draft [of w E] by simp
    ultimately show ?thesis using that(4) [OF eg Throw t1 q(2)] by blast
  next
    case Return
    from counts_Return_value [OF Return] obtain tr where
      tr: "fst (counts_gates w E)
            = tr @ [SetOutput ''decision''
                      (if \<not> countDrafts (inputs E) \<and> isDraft E then ''ok'' else ''skipped'')]"
      "\<forall>k. output_values k tr = []" "\<not> list_ex isFailed tr"
      "\<forall>ow re n ch. Call (UpdatePull ow re n ch) \<notin> set tr" by blast
    have "run w = fst (entry_gates w) @ tr @ [SetOutput ''decision''
                      (if \<not> countDrafts (inputs E) \<and> isDraft E then ''ok'' else ''skipped'')]"
      using Continue Return tr(1) by (simp add: run_def run_body_def bind_step_def prepend_def)
    with that(3) [OF eg Return t1 _ tr(2,3,4)] show ?thesis by blast
  next
    case C: (Continue C)
    then have cg: "counts_gates w E = (fst (counts_gates w E), Continue C)"
      by (metis prod.collapse)
    note r = run_passed [OF eg cg]
    from r(3) obtain q where q: "fst (counts_gates w E) = [Call q]" "isSearchCall q" by blast
    have nd: "countDrafts (inputs E) \<or> \<not> isDraft E"
      using C counts_not_draft [of w E] by simp
    have cg': "counts_gates w E = ([Call q], Continue C)" using cg q(1) by simp
    have "run w = fst (entry_gates w) @ [Call q] @ report E C @ fst (verdict w E C)
                   @ (case snd (verdict w E C) of Throw e \<Rightarrow> [SetFailed e] | _ \<Rightarrow> [])"
      using r(1) q(1) by simp
    with that(5) [OF eg cg' t1 q(2) _ nd] show ?thesis by blast
  qed
qed

lemma suffix_no_call [simp]:
  "Call c \<notin> set (case r of Throw e \<Rightarrow> [SetFailed e] | _ \<Rightarrow> [])"
  by (cases r) auto

lemma run_decision_values:
  "set (output_values ''decision'' (run w))
     \<subseteq> {''ok'', ''skipped'', ''closed'', ''reverted_to_draft''}"
proof (cases rule: run_cases [of w])
  case (InputError e)
  then show ?thesis by simp
next
  case (EntryReturn tr)
  then show ?thesis using team_effects_outputs [of tr "''decision''"] by simp
next
  case (GateReturn t1 E tr)
  then show ?thesis using team_effects_outputs [of t1 "''decision''"] by simp
next
  case (GateThrow t1 E q e)
  then show ?thesis using team_effects_outputs [of t1 "''decision''"] by simp
next
  case (Decided t1 E q C)
  then show ?thesis
    using team_effects_outputs [of t1 "''decision''"] verdict_values [of w E C]
    by (simp add: report_outputs)
qed

text \<open>Either the run reached the verdict, or it neither closed nor reverted.\<close>

lemma run_verdict_or_not:
  "(\<exists>t1 q E C. entry_gates w = (t1, Continue E) \<and> counts_gates w E = ([Call q], Continue C)
       \<and> output_values ''decision'' (run w) = output_values ''decision'' (fst (verdict w E C))
       \<and> (\<forall>ow re n ch. Call (UpdatePull ow re n ch) \<in> set (run w)
              \<longleftrightarrow> Call (UpdatePull ow re n ch) \<in> set (fst (verdict w E C))))
   \<or> (''closed'' \<notin> set (output_values ''decision'' (run w))
       \<and> ''reverted_to_draft'' \<notin> set (output_values ''decision'' (run w))
       \<and> (\<forall>ow re n ch. Call (UpdatePull ow re n ch) \<notin> set (run w)))"
proof (cases rule: run_cases [of w])
  case (InputError e)
  then show ?thesis by simp
next
  case (EntryReturn tr)
  then show ?thesis
    using team_effects_outputs [of tr "''decision''"] team_effects_no_update [of tr] by simp
next
  case (GateReturn t1 E tr)
  then show ?thesis
    using team_effects_outputs [of t1 "''decision''"] team_effects_no_update [of t1] by simp
next
  case (GateThrow t1 E q e)
  have "\<And>ow re n ch. UpdatePull ow re n ch \<noteq> q" using GateThrow(4) by (cases q) auto
  with GateThrow(3,5) have "''closed'' \<notin> set (output_values ''decision'' (run w))
       \<and> ''reverted_to_draft'' \<notin> set (output_values ''decision'' (run w))
       \<and> (\<forall>ow re n ch. Call (UpdatePull ow re n ch) \<notin> set (run w))"
    using team_effects_outputs [of t1 "''decision''"] team_effects_no_update [of t1] by simp
  then show ?thesis by (rule disjI2)
next
  case (Decided t1 E q C)
  have nq: "\<And>ow re n ch. UpdatePull ow re n ch \<noteq> q" using Decided(4) by (cases q) auto
  have d: "output_values ''decision'' (run w) = output_values ''decision'' (fst (verdict w E C))"
    using Decided team_effects_outputs [of t1 "''decision''"] by (simp add: report_outputs)
  have u: "\<forall>ow re n ch. Call (UpdatePull ow re n ch) \<in> set (run w)
             \<longleftrightarrow> Call (UpdatePull ow re n ch) \<in> set (fst (verdict w E C))"
    using Decided(5) nq team_effects_no_update [OF Decided(3)] by (simp add: report_def)
  from Decided(1,2) d u show ?thesis by blast
qed


lemma run_closed:
  "''closed'' \<in> set (output_values ''decision'' (run w)) \<longleftrightarrow>
     (\<exists>ow re n. Call (UpdatePull ow re n SetClosed) \<in> set (run w)
        \<and> pulls_update w ow re n SetClosed = None)"
  using run_verdict_or_not [of w]
proof (elim disjE exE conjE)
  fix t1 q E C
  assume d: "output_values ''decision'' (run w) = output_values ''decision'' (fst (verdict w E C))"
    and u: "\<forall>ow re n ch. Call (UpdatePull ow re n ch) \<in> set (run w)
              \<longleftrightarrow> Call (UpdatePull ow re n ch) \<in> set (fst (verdict w E C))"
  show ?thesis unfolding d by (simp only: u verdict_closed)
next
  assume "''closed'' \<notin> set (output_values ''decision'' (run w))"
    and "\<forall>ow re n ch. Call (UpdatePull ow re n ch) \<notin> set (run w)"
  then show ?thesis by simp
qed

lemma run_reverted:
  "''reverted_to_draft'' \<in> set (output_values ''decision'' (run w)) \<longleftrightarrow>
     (\<exists>ow re n. Call (UpdatePull ow re n SetDraft) \<in> set (run w)
        \<and> pulls_update w ow re n SetDraft = None)"
  using run_verdict_or_not [of w]
proof (elim disjE exE conjE)
  fix t1 q E C
  assume d: "output_values ''decision'' (run w) = output_values ''decision'' (fst (verdict w E C))"
    and u: "\<forall>ow re n ch. Call (UpdatePull ow re n ch) \<in> set (run w)
              \<longleftrightarrow> Call (UpdatePull ow re n ch) \<in> set (fst (verdict w E C))"
  show ?thesis unfolding d by (simp only: u verdict_reverted)
next
  assume "''reverted_to_draft'' \<notin> set (output_values ''decision'' (run w))"
    and "\<forall>ow re n ch. Call (UpdatePull ow re n ch) \<notin> set (run w)"
  then show ?thesis by simp
qed

lemma run_ok:
  "''ok'' \<in> set (output_values ''decision'' (run w)) \<longleftrightarrow>
     (\<exists>t1 E. entry_gates w = (t1, Continue E)
        \<and> ((\<not> countDrafts (inputs E) \<and> isDraft E)
           \<or> (\<exists>t2 C. counts_gates w E = (t2, Continue C)
                 \<and> effectiveOpen_of E C < allowedOpen_of E C)))"
  (is "?L \<longleftrightarrow> ?R")
proof (cases rule: run_cases [of w])
  case (InputError e)
  then have "\<not> ?L" by simp
  moreover have "\<not> ?R" using InputError(1) by auto
  ultimately show ?thesis by blast
next
  case (EntryReturn tr)
  then have "\<not> ?L" using team_effects_outputs [of tr "''decision''"] by simp
  moreover have "\<not> ?R" using EntryReturn(1) by auto
  ultimately show ?thesis by blast
next
  case (GateReturn t1 E tr)
  have nc: "\<And>t2 C. counts_gates w E \<noteq> (t2, Continue C)" using GateReturn(2) by auto
  have l: "?L \<longleftrightarrow> \<not> countDrafts (inputs E) \<and> isDraft E"
    using GateReturn(3,4,5) team_effects_outputs [of t1 "''decision''"] by simp
  have r: "?R \<longleftrightarrow> \<not> countDrafts (inputs E) \<and> isDraft E"
    by (simp add: GateReturn(1) nc)
  from l r show ?thesis by blast
next
  case (GateThrow t1 E q e)
  have nc: "\<And>t2 C. counts_gates w E \<noteq> (t2, Continue C)" using GateThrow(2) by auto
  have l: "\<not> ?L" using GateThrow(3,5) team_effects_outputs [of t1 "''decision''"] by simp
  have r: "\<not> ?R" using GateThrow(6) by (auto simp: GateThrow(1) nc)
  from l r show ?thesis by blast
next
  case (Decided t1 E q C)
  have d: "output_values ''decision'' (run w) = output_values ''decision'' (fst (verdict w E C))"
    using Decided team_effects_outputs [of t1 "''decision''"] by (simp add: report_outputs)
  have l: "?L \<longleftrightarrow> effectiveOpen_of E C < allowedOpen_of E C" unfolding d by (rule verdict_ok)
  have r: "?R \<longleftrightarrow> effectiveOpen_of E C < allowedOpen_of E C"
    using Decided(6) by (auto simp: Decided(1,2))
  from l r show ?thesis by blast
qed

lemma run_numeric_values:
  assumes "entry_gates w = (t1, Continue E)" and "counts_gates w E = (t2, Continue C)"
  shows "snd (fetchAuthorPRCounts w (token_used E) (owner E) (repo E) (author E)
                (countDrafts (inputs E))) = Inr C
       \<and> output_values ''openCount'' (run w) = [String_num (openCount C - 1)]
       \<and> output_values ''mergedCount'' (run w) = [String_num (mergedCount C)]
       \<and> output_values ''allowedOpen'' (run w)
           = [String_num (allowedOpenFromPolicy (policy (inputs E)) (mergedCount C))]"
proof -
  note p = counts_gates_passed [OF assms(2)]
  have f: "snd (fetchAuthorPRCounts w (token_used E) (owner E) (repo E) (author E)
                (countDrafts (inputs E))) = Inr C" using p by simp
  have eff: "effectiveOpen_of E C = openCount C - 1"
    using p by (auto simp: effectiveOpen_of_def effectiveOpen_def currentIncluded_def)
  note r = run_passed [OF assms]
  from r(3) obtain q where q: "t2 = [Call q]" by blast
  note t = team_effects_outputs [OF r(2)]
  have a: "output_values ''openCount'' (run w) = [String_num (openCount C - 1)]"
    using r(1) q t [of "''openCount''"] verdict_numeric [of "''openCount''" w E C] eff
    by (simp add: report_outputs)
  have b: "output_values ''mergedCount'' (run w) = [String_num (mergedCount C)]"
    using r(1) q t [of "''mergedCount''"] verdict_numeric [of "''mergedCount''" w E C]
    by (simp add: report_outputs)
  have c: "output_values ''allowedOpen'' (run w)
           = [String_num (allowedOpenFromPolicy (policy (inputs E)) (mergedCount C))]"
    using r(1) q t [of "''allowedOpen''"] verdict_numeric [of "''allowedOpen''" w E C]
    by (simp add: report_outputs allowedOpen_of_def)
  from f a b c show ?thesis by (intro conjI)
qed

section \<open>The claims\<close>

text \<open>
  Claim C1. For a non-empty table \<open>P\<close> and any merged count \<open>m\<close> (in particular
  every \<open>m \<ge> 0\<close>), \<open>allowedOpenFromPolicy P m\<close> is the \<open>allowedOpen\<close> of a rule at a
  position \<open>i\<close> of the stably sorted table. When some rule has \<open>minMerged \<le> m\<close>, that rule
  has \<open>minMerged \<le> m\<close>, every rule of the sorted table with \<open>minMerged \<le> m\<close> stands at or
  before \<open>i\<close> and has a \<open>minMerged\<close> no greater (so \<open>i\<close> is the greatest \<open>minMerged \<le> m\<close>,
  the later position winning a tie), and it is the last rule of \<open>P\<close> with its \<open>minMerged\<close>.
  When \<open>m\<close> is below every rule, it is the first rule of the sorted table, whose
  \<open>minMerged\<close> is the smallest.
\<close>

theorem allowedOpenFromPolicy_greatest_rule:
  assumes "P \<noteq> []"
  shows "\<exists>i<length (sort_key minMerged P).
           allowedOpenFromPolicy P m = allowedOpen (sort_key minMerged P ! i) \<and>
           (if \<exists>r\<in>set P. minMerged r \<le> m
            then minMerged (sort_key minMerged P ! i) \<le> m \<and>
                 (\<forall>j<length (sort_key minMerged P).
                     minMerged (sort_key minMerged P ! j) \<le> m \<longrightarrow>
                     j \<le> i \<and>
                     minMerged (sort_key minMerged P ! j) \<le> minMerged (sort_key minMerged P ! i)) \<and>
                 sort_key minMerged P ! i =
                   last (filter (\<lambda>r. minMerged r = minMerged (sort_key minMerged P ! i)) P)
            else i = 0 \<and> (\<forall>r\<in>set P. minMerged (sort_key minMerged P ! 0) \<le> minMerged r))"
proof (cases "\<exists>r\<in>set P. minMerged r \<le> m")
  case True
  then obtain r0 where r0: "r0 \<in> set P" "minMerged r0 \<le> m" by blast
  let ?i = "length (filter (\<lambda>r. minMerged r \<le> m) P) - 1"
  note facts = select_at_or_above [OF r0]
  have "allowedOpenFromPolicy P m = allowedOpen (sort_key minMerged P ! ?i)"
    using assms facts(2) by (simp add: allowedOpenFromPolicy_def)
  with True facts(1,3,4,5) show ?thesis
    by (intro exI [of _ ?i]) simp
next
  case False
  then have below: "\<forall>r\<in>set P. \<not> minMerged r \<le> m" by blast
  have "allowedOpenFromPolicy P m = allowedOpen (sort_key minMerged P ! 0)"
    using assms select_below [OF below] by (simp add: allowedOpenFromPolicy_def)
  moreover have "\<forall>r\<in>set P. minMerged (sort_key minMerged P ! 0) \<le> minMerged r"
    using sorted_first_least [OF assms] by blast
  moreover have "0 < length (sort_key minMerged P)" using assms by simp
  ultimately show ?thesis using False
    by (intro exI [of _ 0]) simp
qed

text \<open>
  The table of the README at \<open>mergedCount = 2\<close>: the rule with \<open>minMerged = 1\<close> applies.
\<close>

theorem allowedOpenFromPolicy_greatest_rule_witness:
  "policy_example \<noteq> []
   \<and> allowedOpenFromPolicy policy_example 2 = 2
   \<and> (\<exists>i<length (sort_key minMerged policy_example).
         allowedOpenFromPolicy policy_example 2 = allowedOpen (sort_key minMerged policy_example ! i)
         \<and> minMerged (sort_key minMerged policy_example ! i) \<le> 2)"
proof -
  have h: "policy_example \<noteq> []" by (simp add: policy_example_def)
  have ex: "\<exists>r\<in>set policy_example. minMerged r \<le> 2" by (simp add: policy_example_def)
  have v: "allowedOpenFromPolicy policy_example 2 = 2" by code_simp
  from allowedOpenFromPolicy_greatest_rule [OF h, of 2] ex
  have "\<exists>i<length (sort_key minMerged policy_example).
         allowedOpenFromPolicy policy_example 2 = allowedOpen (sort_key minMerged policy_example ! i)
         \<and> minMerged (sort_key minMerged policy_example ! i) \<le> 2"
    by (simp only: if_True) blast
  with h v show ?thesis by blast
qed

text \<open>
  Claim C2. When an invocation passes every gate (the entry gates continue with the locals
  \<open>E\<close>, and the draft gate, the state gate and the count query continue with the counts
  \<open>C\<close>; \<open>entry_gates_passed\<close> and \<open>counts_gates_passed\<close> say what that means), the
  decision is \<open>ok\<close> if and only if \<open>effectiveOpen < allowedOpen\<close>, and an
  enforcement branch is taken (a comment, update or label call is made) if and only if
  \<open>effectiveOpen \<ge> allowedOpen\<close>.
\<close>

theorem decision_ok_iff_below_limit:
  assumes "entry_gates w = (t1, Continue E)" and "counts_gates w E = (t2, Continue C)"
  shows "(output_values ''decision'' (run w) = [''ok'']
            \<longleftrightarrow> effectiveOpen_of E C < allowedOpen_of E C)
       \<and> (list_ex isEnforcementCall (calls (run w))
            \<longleftrightarrow> effectiveOpen_of E C \<ge> allowedOpen_of E C)"
proof -
  note r = run_passed [OF assms]
  from r(3) obtain q where q: "t2 = [Call q]" "isSearchCall q" by blast
  have t1o: "output_values ''decision'' t1 = []" using r(2) by (rule team_effects_outputs)
  have t1c: "\<not> list_ex isEnforcementCall (calls t1)"
    using r(2) team_effects_calls membership_calls_not_enforcement by blast
  have qc: "\<not> isEnforcementCall q" using q(2) by (cases q) auto
  have dec: "output_values ''decision'' (run w) = output_values ''decision'' (fst (verdict w E C))"
    using r(1) q t1o by (simp add: report_outputs)
  have cls: "list_ex isEnforcementCall (calls (run w))
               \<longleftrightarrow> list_ex isEnforcementCall (calls (fst (verdict w E C)))"
    using r(1) q t1c qc by (simp add: report_outputs)
  show ?thesis
  proof (cases "allowedOpen_of E C \<le> effectiveOpen_of E C")
    case True
    have "''ok'' \<notin> set (output_values ''decision'' (fst (verdict w E C)))"
      using verdict_effects [OF True] by (rule enforcement_effects_not_ok)
    then have "output_values ''decision'' (fst (verdict w E C)) \<noteq> [''ok'']" by auto
    moreover have "list_ex isEnforcementCall (calls (fst (verdict w E C)))"
      using True by (simp add: verdict_def revertBranch_calls closeBranch_calls)
    ultimately show ?thesis using True dec cls by simp
  next
    case False
    then show ?thesis using dec cls by (simp add: verdict_def)
  qed
qed

text \<open>One open pull request and a limit of one: the effective count is 0, the decision \<open>ok\<close>.\<close>

theorem decision_ok_iff_below_limit_witness:
  "entry_gates world_one_open = ([], Continue entered_example)
   \<and> counts_gates world_one_open entered_example
       = ([Call search_example], Continue \<lparr>openCount = 1, mergedCount = 0\<rparr>)
   \<and> effectiveOpen_of entered_example \<lparr>openCount = 1, mergedCount = 0\<rparr> = 0
   \<and> allowedOpen_of entered_example \<lparr>openCount = 1, mergedCount = 0\<rparr> = 1
   \<and> output_values ''decision'' (run world_one_open) = [''ok'']
   \<and> \<not> list_ex isEnforcementCall (calls (run world_one_open))"
proof -
  have e: "effectiveOpen_of entered_example \<lparr>openCount = 1, mergedCount = 0\<rparr> = 0" by code_simp
  have a: "allowedOpen_of entered_example \<lparr>openCount = 1, mergedCount = 0\<rparr> = 1" by code_simp
  from decision_ok_iff_below_limit [OF entry_one_open counts_one_open] e a
  show ?thesis using entry_one_open counts_one_open by simp
qed

text \<open>
  Claim C3. The effective open count is the raw count minus one when \<open>countDrafts\<close> is
  true, the raw count when \<open>countDrafts\<close> is false and the pull request is a draft, and the
  raw count minus one when \<open>countDrafts\<close> is false and it is not a draft: the raw count
  minus \<open>(countDrafts OR NOT isDraft ? 1 : 0)\<close>. The number \<open>run\<close> compares and reports is
  this one.
\<close>

theorem effectiveOpen_formula:
  "effectiveOpen raw cd d = raw - (if cd \<or> \<not> d then 1 else 0) \<and>
   effectiveOpen raw True d = raw - 1 \<and>
   effectiveOpen raw False True = raw \<and>
   effectiveOpen raw False False = raw - 1 \<and>
   effectiveOpen_of E C =
     openCount C - (if countDrafts (inputs E) \<or> \<not> isDraft E then 1 else 0)"
  by (simp add: effectiveOpen_def currentIncluded_def effectiveOpen_of_def)

text \<open>The three cases at concrete counts.\<close>

theorem effectiveOpen_formula_witness:
  "effectiveOpen 2 True False = 1 \<and> effectiveOpen 2 False True = 2 \<and> effectiveOpen 3 False False = 2"
  using effectiveOpen_formula [of 2 True False] effectiveOpen_formula [of 2 False True]
    effectiveOpen_formula [of 3 False False]
  by simp




text \<open>
  Claim C5, as the code has it. With \<open>countDrafts = true\<close>, a raw open count of 2 and
  \<open>allowedOpen = 1\<close>, the effective open count is 1, which is at the limit
  (\<open>effectiveOpen \<ge> allowedOpen\<close>): the close branch is entered, the close comment is
  attempted and the decision is never \<open>ok\<close>; when the comment and the close succeed the
  decision is \<open>closed\<close>.
\<close>

theorem at_limit_enters_close_branch:
  assumes "entry_gates w = (t1, Continue E)" and "counts_gates w E = (t2, Continue C)"
    and "countDrafts (inputs E)" and "openCount C = 2" and "allowedOpen_of E C = 1"
  shows "effectiveOpen_of E C = 1
       \<and> effectiveOpen_of E C \<ge> allowedOpen_of E C
       \<and> Call (CreateComment (owner E) (repo E) (pull_number E) (closeCommentBody E C)) \<in> set (run w)
       \<and> output_values ''decision'' (run w) \<noteq> [''ok'']
       \<and> (issues_createComment w (owner E) (repo E) (pull_number E) (closeCommentBody E C) = None
            \<and> pulls_update w (owner E) (repo E) (pull_number E) SetClosed = None
          \<longrightarrow> output_values ''decision'' (run w) = [''closed''])"
proof -
  have eff: "effectiveOpen_of E C = 1"
    using assms(3,4) by (simp add: effectiveOpen_of_def effectiveOpen_def currentIncluded_def)
  have v: "verdict w E C = closeBranch w E C"
    using eff assms(3,5) by (simp add: verdict_def)
  note r = run_passed [OF assms(1,2)]
  from r(3) obtain q where q: "t2 = [Call q]" by blast
  have t1o: "output_values ''decision'' t1 = []" using r(2) by (rule team_effects_outputs)
  have dec: "output_values ''decision'' (run w) = output_values ''decision'' (fst (closeBranch w E C))"
    using r(1) q t1o v by (simp add: report_outputs)
  have "Call (CreateComment (owner E) (repo E) (pull_number E) (closeCommentBody E C))
          \<in> set (fst (closeBranch w E C))"
    by (simp add: closeBranch_def prepend_def split: option.split)
  then have c: "Call (CreateComment (owner E) (repo E) (pull_number E) (closeCommentBody E C))
                  \<in> set (run w)"
    using r(1) v by simp
  have "''ok'' \<notin> set (output_values ''decision'' (fst (closeBranch w E C)))"
    using closeBranch_effects by (rule enforcement_effects_not_ok)
  then have nok: "output_values ''decision'' (run w) \<noteq> [''ok'']" using dec by auto
  have "issues_createComment w (owner E) (repo E) (pull_number E) (closeCommentBody E C) = None
          \<and> pulls_update w (owner E) (repo E) (pull_number E) SetClosed = None
        \<longrightarrow> output_values ''decision'' (run w) = [''closed'']"
    unfolding dec
    by (simp add: closeBranch_def closePull_def labelAndFinish_def prepend_def split: option.split)
  with eff assms(5) c nok show ?thesis by simp
qed

text \<open>
  Claim C5 as stated fails: with \<open>countDrafts = true\<close>, a raw open count of 2 and
  \<open>allowedOpen = 1\<close> (the summary line shows the raw count 2, the effective count 1, the
  merged count 0 and the limit 1) the run comments, closes the pull request and ends
  with the decision \<open>closed\<close>.
\<close>

theorem at_limit_counterexample:
  "run world_example =
     [Call search_example,
      Info (Summary ''alice'' 2 1 0 1 False True),
      SetOutput ''openCount'' ''1'',
      SetOutput ''mergedCount'' ''0'',
      SetOutput ''allowedOpen'' ''1'',
      Call (CreateComment ''acme'' ''widgets'' 7 ''Hi alice: 1 open, 1 allowed''),
      Call (UpdatePull ''acme'' ''widgets'' 7 SetClosed),
      Info (ClosedByPolicy 7),
      SetOutput ''decision'' ''closed'']"
  by code_simp

text \<open>The example invocation satisfies the hypotheses and ends \<open>closed\<close>.\<close>

theorem at_limit_enters_close_branch_witness:
  "entry_gates world_example = ([], Continue entered_example)
   \<and> counts_gates world_example entered_example
       = ([Call search_example], Continue \<lparr>openCount = 2, mergedCount = 0\<rparr>)
   \<and> countDrafts (inputs entered_example)
   \<and> allowedOpen_of entered_example \<lparr>openCount = 2, mergedCount = 0\<rparr> = 1
   \<and> effectiveOpen_of entered_example \<lparr>openCount = 2, mergedCount = 0\<rparr> = 1
   \<and> output_values ''decision'' (run world_example) = [''closed'']"
proof -
  have cd: "countDrafts (inputs entered_example)" by code_simp
  have oc: "openCount \<lparr>openCount = 2, mergedCount = 0\<rparr> = 2" by simp
  have a: "allowedOpen_of entered_example \<lparr>openCount = 2, mergedCount = 0\<rparr> = 1" by code_simp
  have c1: "issues_createComment world_example (owner entered_example) (repo entered_example)
              (pull_number entered_example)
              (closeCommentBody entered_example \<lparr>openCount = 2, mergedCount = 0\<rparr>) = None"
    by (simp add: world_example_def)
  have c2: "pulls_update world_example (owner entered_example) (repo entered_example)
              (pull_number entered_example) SetClosed = None"
    by (simp add: world_example_def)
  from at_limit_enters_close_branch [OF entry_example counts_example cd oc a] c1 c2
  show ?thesis using entry_example counts_example cd a by simp
qed

text \<open>
  Claim C6. When the membership query for the configured team at position \<open>i\<close> is made and
  fails: with \<open>skipOnFailure = true\<close> the failure is logged, no later team is queried, the
  run ends with the decision \<open>skipped\<close> and makes no count query and no comment, close,
  revert or label call; with \<open>skipOnFailure = false\<close> the failure is logged and the scan
  goes on with the next configured slug, which is queried, or refused with a warning when
  it is not of the form \<open>org/team\<close>.
\<close>

theorem team_check_failure_by_skipOnFailure:
  assumes "parseInputs w = Inr inp"
    and "Call (GetMembershipForUserInOrg i o1 t u) \<in> set (run w)"
    and "teams_getMembershipForUserInOrg w i o1 t u = Inl e"
  shows "i < length (excludeTeams inp)
       \<and> parseTeamSlug (excludeTeams inp ! i) = Some \<lparr>org = o1, team = t\<rparr>
       \<and> (skipOnFailure inp \<longrightarrow>
            Warning (MembershipFailedSkipping o1 t u e) \<in> set (run w)
            \<and> output_values ''decision'' (run w) = [''skipped'']
            \<and> \<not> list_ex isEnforcementCall (calls (run w))
            \<and> \<not> list_ex isSearchCall (calls (run w))
            \<and> (\<forall>j o2 t2 u2. Call (GetMembershipForUserInOrg j o2 t2 u2) \<in> set (run w) \<longrightarrow> j \<le> i))
       \<and> (\<not> skipOnFailure inp \<longrightarrow>
            Warning (MembershipFailedContinuing o1 t u e) \<in> set (run w)
            \<and> (Suc i < length (excludeTeams inp) \<longrightarrow>
                 (case parseTeamSlug (excludeTeams inp ! Suc i) of
                    None \<Rightarrow> Warning (InvalidTeamSlug (excludeTeams inp ! Suc i)) \<in> set (run w)
                  | Some p \<Rightarrow> Call (GetMembershipForUserInOrg (Suc i) (org p) (team p) u)
                                \<in> set (run w))))"
proof -
  let ?c = "Call (GetMembershipForUserInOrg i o1 t u)"
  have ce: "?c \<in> set (fst (entry_gates w))"
    using assms(2) by (rule run_membership_call) simp
  from entry_call [OF ce] obtain E where E: "parseInputs w = Inr (inputs E)"
    "entry_gates w = team_gate w E" by blast
  have inp: "inputs E = inp" using E(1) assms(1) by simp
  define r where "r = isUserExcludedByTeams w 0 (excludeTeams inp) (author E) (skipOnFailure inp)"
  from ce E(2) have ct: "?c \<in> set (fst (team_gate w E))" by simp
  from team_gate_call [OF ct] inp
  have cr: "?c \<in> set (fst r)"
    and tg: "team_gate w E =
           (if snd r
            then (fst r @ [Info (ExcludedByTeams (author E)), SetOutput ''decision'' ''skipped''],
                  Return)
            else (fst r, Continue E))"
    unfolding r_def by simp_all
  from loop_calls [OF cr [unfolded r_def]]
  have pos: "i < length (excludeTeams inp)" "u = author E"
    "parseTeamSlug (excludeTeams inp ! i) = Some \<lparr>org = o1, team = t\<rparr>" by simp_all
  have sub: "set (fst r) \<subseteq> set (run w)"
    using entry_in_run [of w] E(2) tg by (auto split: if_splits)
  have skip: "skipOnFailure inp \<longrightarrow>
            Warning (MembershipFailedSkipping o1 t u e) \<in> set (run w)
            \<and> output_values ''decision'' (run w) = [''skipped'']
            \<and> \<not> list_ex isEnforcementCall (calls (run w))
            \<and> \<not> list_ex isSearchCall (calls (run w))
            \<and> (\<forall>j o2 t2 u2. Call (GetMembershipForUserInOrg j o2 t2 u2) \<in> set (run w) \<longrightarrow> j \<le> i)"
  proof
    assume s: "skipOnFailure inp"
    then have rT: "r = isUserExcludedByTeams w 0 (excludeTeams inp) (author E) True"
      by (simp add: r_def)
    from loop_failure_skips [OF cr [unfolded rT] assms(3)]
    have sr: "snd r" and wr: "Warning (MembershipFailedSkipping o1 t u e) \<in> set (fst r)"
      unfolding rT by simp_all
    have eg: "entry_gates w
                = (fst r @ [Info (ExcludedByTeams (author E)), SetOutput ''decision'' ''skipped''],
                   Return)"
      using E(2) tg sr by simp
    then have rw: "run w = fst r @ [Info (ExcludedByTeams (author E)),
                                    SetOutput ''decision'' ''skipped'']"
      by (simp add: run_def run_body_def bind_step_def)
    have tr: "list_all isTeamEffect (fst r)" unfolding r_def by (rule teams_trace)
    have "\<not> list_ex isEnforcementCall (calls (fst r)) \<and> \<not> list_ex isSearchCall (calls (fst r))"
      using tr team_effects_calls membership_calls_not_enforcement by blast
    moreover have "\<forall>j o2 t2 u2. Call (GetMembershipForUserInOrg j o2 t2 u2) \<in> set (run w) \<longrightarrow> j \<le> i"
      using loop_failure_stops [OF cr [unfolded rT] assms(3)] rw rT by auto
    ultimately show "Warning (MembershipFailedSkipping o1 t u e) \<in> set (run w)
            \<and> output_values ''decision'' (run w) = [''skipped'']
            \<and> \<not> list_ex isEnforcementCall (calls (run w))
            \<and> \<not> list_ex isSearchCall (calls (run w))
            \<and> (\<forall>j o2 t2 u2. Call (GetMembershipForUserInOrg j o2 t2 u2) \<in> set (run w) \<longrightarrow> j \<le> i)"
      using wr rw team_effects_outputs [OF tr] by simp
  qed
  have cont: "\<not> skipOnFailure inp \<longrightarrow>
            Warning (MembershipFailedContinuing o1 t u e) \<in> set (run w)
            \<and> (Suc i < length (excludeTeams inp) \<longrightarrow>
                 (case parseTeamSlug (excludeTeams inp ! Suc i) of
                    None \<Rightarrow> Warning (InvalidTeamSlug (excludeTeams inp ! Suc i)) \<in> set (run w)
                  | Some p \<Rightarrow> Call (GetMembershipForUserInOrg (Suc i) (org p) (team p) u)
                                \<in> set (run w)))"
  proof
    assume s: "\<not> skipOnFailure inp"
    then have rF: "r = isUserExcludedByTeams w 0 (excludeTeams inp) (author E) False"
      by (simp add: r_def)
    from loop_failure_continues [OF cr [unfolded rF] assms(3)] sub pos(2)
    show "Warning (MembershipFailedContinuing o1 t u e) \<in> set (run w)
            \<and> (Suc i < length (excludeTeams inp) \<longrightarrow>
                 (case parseTeamSlug (excludeTeams inp ! Suc i) of
                    None \<Rightarrow> Warning (InvalidTeamSlug (excludeTeams inp ! Suc i)) \<in> set (run w)
                  | Some p \<Rightarrow> Call (GetMembershipForUserInOrg (Suc i) (org p) (team p) u)
                                \<in> set (run w)))"
      unfolding rF by (auto split: option.splits)
  qed
  from pos(1,3) skip cont show ?thesis by blast
qed

text \<open>
  Two excluded teams, the query for the first one failing: skipped with \<open>skipOnFailure\<close>
  at its default; with \<open>skipOnFailure\<close> set to \<open>false\<close> the second team is queried.
\<close>

theorem team_check_failure_by_skipOnFailure_witness:
  "parseInputs world_team_fails = Inr (inputs_example\<lparr>excludeTeams := [''acme/core'', ''acme/docs'']\<rparr>)
   \<and> Call (GetMembershipForUserInOrg 0 ''acme'' ''core'' ''alice'') \<in> set (run world_team_fails)
   \<and> teams_getMembershipForUserInOrg world_team_fails 0 ''acme'' ''core'' ''alice''
        = Inl (ApiError ''Not Found'' (Some 404))
   \<and> output_values ''decision'' (run world_team_fails) = [''skipped'']
   \<and> \<not> list_ex isEnforcementCall (calls (run world_team_fails))
   \<and> parseInputs world_team_fails_strict
        = Inr (inputs_example\<lparr>excludeTeams := [''acme/core'', ''acme/docs''], skipOnFailure := False\<rparr>)
   \<and> Call (GetMembershipForUserInOrg 0 ''acme'' ''core'' ''alice'') \<in> set (run world_team_fails_strict)
   \<and> Warning (MembershipFailedContinuing ''acme'' ''core'' ''alice'' (ApiError ''Not Found'' (Some 404)))
        \<in> set (run world_team_fails_strict)
   \<and> Call (GetMembershipForUserInOrg 1 ''acme'' ''docs'' ''alice'') \<in> set (run world_team_fails_strict)"
proof -
  let ?i1 = "inputs_example\<lparr>excludeTeams := [''acme/core'', ''acme/docs'']\<rparr>"
  let ?i2 = "inputs_example\<lparr>excludeTeams := [''acme/core'', ''acme/docs''], skipOnFailure := False\<rparr>"
  have p1: "parseInputs world_team_fails = Inr ?i1" by code_simp
  have s1: "skipOnFailure ?i1" by code_simp
  have c1: "Call (GetMembershipForUserInOrg 0 ''acme'' ''core'' ''alice'') \<in> set (run world_team_fails)"
    by code_simp
  have f1: "teams_getMembershipForUserInOrg world_team_fails 0 ''acme'' ''core'' ''alice''
              = Inl (ApiError ''Not Found'' (Some 404))" by code_simp
  have p2: "parseInputs world_team_fails_strict = Inr ?i2" by code_simp
  have s2: "\<not> skipOnFailure ?i2" by simp
  have c2: "Call (GetMembershipForUserInOrg 0 ''acme'' ''core'' ''alice'')
              \<in> set (run world_team_fails_strict)" by code_simp
  have f2: "teams_getMembershipForUserInOrg world_team_fails_strict 0 ''acme'' ''core'' ''alice''
              = Inl (ApiError ''Not Found'' (Some 404))" by code_simp
  have l2: "Suc 0 < length (excludeTeams ?i2)" by code_simp
  have t2: "parseTeamSlug (excludeTeams ?i2 ! Suc 0) = Some \<lparr>org = ''acme'', team = ''docs''\<rparr>"
    by code_simp
  from team_check_failure_by_skipOnFailure [OF p1 c1 f1] s1
  have a: "output_values ''decision'' (run world_team_fails) = [''skipped'']
           \<and> \<not> list_ex isEnforcementCall (calls (run world_team_fails))" by blast
  from team_check_failure_by_skipOnFailure [OF p2 c2 f2] s2 l2
  have b: "Warning (MembershipFailedContinuing ''acme'' ''core'' ''alice'' (ApiError ''Not Found'' (Some 404)))
             \<in> set (run world_team_fails_strict)"
    and n: "case parseTeamSlug (excludeTeams ?i2 ! Suc 0) of
              None \<Rightarrow> Warning (InvalidTeamSlug (excludeTeams ?i2 ! Suc 0)) \<in> set (run world_team_fails_strict)
            | Some p \<Rightarrow> Call (GetMembershipForUserInOrg (Suc 0) (org p) (team p) ''alice'')
                          \<in> set (run world_team_fails_strict)"
    by blast+
  from n t2 have c: "Call (GetMembershipForUserInOrg 1 ''acme'' ''docs'' ''alice'')
                       \<in> set (run world_team_fails_strict)" by simp
  from p1 c1 f1 a p2 c2 b c show ?thesis by blast
qed

text \<open>
  Claim C7. When an invocation reaches the draft gate (the entry gates continue with the
  locals \<open>E\<close>) with \<open>countDrafts = false\<close> and a draft pull request, the run ends there
  with the decision \<open>ok\<close>: it makes no count query and no comment, close, revert or label
  call.
\<close>

theorem draft_gate_ok:
  assumes "entry_gates w = (t1, Continue E)" and "\<not> countDrafts (inputs E)" and "isDraft E"
  shows "run w = t1 @ [Info (DraftNotCounted (pull_number E)), SetOutput ''decision'' ''ok'']
       \<and> output_values ''decision'' (run w) = [''ok'']
       \<and> \<not> list_ex isSearchCall (calls (run w))
       \<and> \<not> list_ex isEnforcementCall (calls (run w))"
proof -
  have cg: "counts_gates w E
              = ([Info (DraftNotCounted (pull_number E)), SetOutput ''decision'' ''ok''], Return)"
    using assms(2,3) by (simp add: counts_gates_def)
  have r: "run w = t1 @ [Info (DraftNotCounted (pull_number E)), SetOutput ''decision'' ''ok'']"
    using assms(1) cg by (simp add: run_def run_body_def bind_step_def prepend_def)
  have t1: "list_all isTeamEffect t1" using entry_Continue [of w E] assms(1) by simp
  have "output_values ''decision'' t1 = []" using t1 by (rule team_effects_outputs)
  moreover have "\<not> list_ex isEnforcementCall (calls t1) \<and> \<not> list_ex isSearchCall (calls t1)"
    using t1 team_effects_calls membership_calls_not_enforcement by blast
  ultimately show ?thesis using r by simp
qed

text \<open>A draft pull request with \<open>countDrafts\<close> set to \<open>false\<close>.\<close>

theorem draft_gate_ok_witness:
  "entry_gates world_draft = ([], Continue entered_draft)
   \<and> \<not> countDrafts (inputs entered_draft) \<and> isDraft entered_draft
   \<and> run world_draft = [Info (DraftNotCounted 7), SetOutput ''decision'' ''ok'']
   \<and> output_values ''decision'' (run world_draft) = [''ok'']"
proof -
  have c: "\<not> countDrafts (inputs entered_draft)" by code_simp
  have d: "isDraft entered_draft" by code_simp
  have n: "pull_number entered_draft = 7" by code_simp
  from draft_gate_ok [OF entry_draft c d] n show ?thesis using entry_draft c d by simp
qed

text \<open>
  Claim C8, as the code has it. A run that ends in a decision sets \<open>decision\<close> exactly once
  (a run that fails never sets it), and the value reflects the terminal state reached:
  it is \<open>closed\<close> exactly when the call that closes the pull request was made and succeeded,
  \<open>reverted_to_draft\<close> exactly when the call that reverts it to draft was made and
  succeeded, \<open>ok\<close> exactly when the run ended at the draft gate or passed every gate with
  \<open>effectiveOpen < allowedOpen\<close>, and \<open>skipped\<close> otherwise. \<open>openCount\<close>, \<open>allowedOpen\<close>
  and \<open>mergedCount\<close> are each set exactly once when the run passed every gate and fetched
  the counts, to the raw open count the query returned minus one (the effective open
  count), to the threshold the policy resolves for the merged count, and to the merged
  count the query returned; they are not set at all when the run ended at an earlier gate.
\<close>

theorem outputs_reflect_terminal_state:
  "length (output_values ''decision'' (run w)) = (if list_ex isFailed (run w) then 0 else 1)
   \<and> (\<forall>k\<in>{''openCount'', ''allowedOpen'', ''mergedCount''}.
         length (output_values k (run w)) = (if counts_fetched w then 1 else 0))
   \<and> set (output_values ''decision'' (run w))
       \<subseteq> {''ok'', ''skipped'', ''closed'', ''reverted_to_draft''}
   \<and> (''closed'' \<in> set (output_values ''decision'' (run w)) \<longleftrightarrow>
        (\<exists>ow re n. Call (UpdatePull ow re n SetClosed) \<in> set (run w)
           \<and> pulls_update w ow re n SetClosed = None))
   \<and> (''reverted_to_draft'' \<in> set (output_values ''decision'' (run w)) \<longleftrightarrow>
        (\<exists>ow re n. Call (UpdatePull ow re n SetDraft) \<in> set (run w)
           \<and> pulls_update w ow re n SetDraft = None))
   \<and> (''ok'' \<in> set (output_values ''decision'' (run w)) \<longleftrightarrow>
        (\<exists>t1 E. entry_gates w = (t1, Continue E)
           \<and> ((\<not> countDrafts (inputs E) \<and> isDraft E)
              \<or> (\<exists>t2 C. counts_gates w E = (t2, Continue C)
                    \<and> effectiveOpen_of E C < allowedOpen_of E C))))
   \<and> (''skipped'' \<in> set (output_values ''decision'' (run w)) \<longleftrightarrow>
        \<not> list_ex isFailed (run w)
        \<and> ''closed'' \<notin> set (output_values ''decision'' (run w))
        \<and> ''reverted_to_draft'' \<notin> set (output_values ''decision'' (run w))
        \<and> ''ok'' \<notin> set (output_values ''decision'' (run w)))
   \<and> (\<forall>t1 t2 E C. entry_gates w = (t1, Continue E) \<and> counts_gates w E = (t2, Continue C) \<longrightarrow>
         snd (fetchAuthorPRCounts w (token_used E) (owner E) (repo E) (author E)
                (countDrafts (inputs E))) = Inr C
         \<and> output_values ''openCount'' (run w) = [String_num (openCount C - 1)]
         \<and> output_values ''mergedCount'' (run w) = [String_num (mergedCount C)]
         \<and> output_values ''allowedOpen'' (run w)
             = [String_num (allowedOpenFromPolicy (policy (inputs E)) (mergedCount C))])"
proof -
  let ?D = "output_values ''decision'' (run w)"
  have len: "length ?D = (if list_ex isFailed (run w) then 0 else 1)"
    using run_outputs [of "''decision''" w] by simp
  have num: "\<forall>k\<in>{''openCount'', ''allowedOpen'', ''mergedCount''}.
         length (output_values k (run w)) = (if counts_fetched w then 1 else 0)"
    using run_outputs [of _ w] by simp
  note vals = run_decision_values [of w]
  have skipped: "''skipped'' \<in> set ?D \<longleftrightarrow>
        \<not> list_ex isFailed (run w) \<and> ''closed'' \<notin> set ?D
        \<and> ''reverted_to_draft'' \<notin> set ?D \<and> ''ok'' \<notin> set ?D"
  proof (cases "list_ex isFailed (run w)")
    case True
    with len show ?thesis by simp
  next
    case False
    with len obtain d where d: "?D = [d]" by (cases ?D) auto
    with vals have "d \<in> {''ok'', ''skipped'', ''closed'', ''reverted_to_draft''}" by simp
    with d False show ?thesis by auto
  qed
  have nv: "\<forall>t1 t2 E C. entry_gates w = (t1, Continue E) \<and> counts_gates w E = (t2, Continue C) \<longrightarrow>
         snd (fetchAuthorPRCounts w (token_used E) (owner E) (repo E) (author E)
                (countDrafts (inputs E))) = Inr C
         \<and> output_values ''openCount'' (run w) = [String_num (openCount C - 1)]
         \<and> output_values ''mergedCount'' (run w) = [String_num (mergedCount C)]
         \<and> output_values ''allowedOpen'' (run w)
             = [String_num (allowedOpenFromPolicy (policy (inputs E)) (mergedCount C))]"
    by (intro allI impI, elim conjE, rule run_numeric_values)
  show ?thesis
    apply (intro conjI)
           apply (rule len)
          apply (rule num)
         apply (rule vals)
        apply (rule run_closed)
       apply (rule run_reverted)
      apply (rule run_ok)
     apply (rule skipped)
    apply (rule nv)
    done
qed

text \<open>
  Claim C8 as stated fails: on an event that is not supported the run ends with the
  decision \<open>skipped\<close> and sets none of \<open>openCount\<close>, \<open>allowedOpen\<close> and \<open>mergedCount\<close>.
\<close>

theorem outputs_set_once_counterexample:
  "run world_push = [Info (EventNotSupported ''push''), SetOutput ''decision'' ''skipped'']
   \<and> output_values ''openCount'' (run world_push) = []
   \<and> output_values ''allowedOpen'' (run world_push) = []
   \<and> output_values ''mergedCount'' (run world_push) = []"
  by code_simp

text \<open>
  A run that fetches the counts 2 open and 0 merged and closes the pull request: the
  decision is \<open>closed\<close>, and the outputs are 1, 0 and 1.
\<close>

theorem outputs_reflect_terminal_state_witness:
  "entry_gates world_example = ([], Continue entered_example)
   \<and> counts_gates world_example entered_example
       = ([Call search_example], Continue \<lparr>openCount = 2, mergedCount = 0\<rparr>)
   \<and> counts_fetched world_example
   \<and> \<not> list_ex isFailed (run world_example)
   \<and> Call (UpdatePull ''acme'' ''widgets'' 7 SetClosed) \<in> set (run world_example)
   \<and> pulls_update world_example ''acme'' ''widgets'' 7 SetClosed = None
   \<and> output_values ''decision'' (run world_example) = [''closed'']
   \<and> output_values ''openCount'' (run world_example) = [''1'']
   \<and> output_values ''mergedCount'' (run world_example) = [''0'']
   \<and> output_values ''allowedOpen'' (run world_example) = [''1'']"
proof -
  note T = outputs_reflect_terminal_state [of world_example]
  note len = T [THEN conjunct1]
  note closed_iff = T [THEN conjunct2, THEN conjunct2, THEN conjunct2, THEN conjunct1]
  note nv = T [THEN conjunct2, THEN conjunct2, THEN conjunct2, THEN conjunct2,
               THEN conjunct2, THEN conjunct2, THEN conjunct2]
  have f: "counts_fetched world_example" by code_simp
  have n: "\<not> list_ex isFailed (run world_example)" by code_simp
  have c: "Call (UpdatePull ''acme'' ''widgets'' 7 SetClosed) \<in> set (run world_example)"
    by code_simp
  have u: "pulls_update world_example ''acme'' ''widgets'' 7 SetClosed = None" by code_simp
  from closed_iff c u have "''closed'' \<in> set (output_values ''decision'' (run world_example))"
    by blast
  moreover from len n have "length (output_values ''decision'' (run world_example)) = 1"
    by simp
  ultimately have d: "output_values ''decision'' (run world_example) = [''closed'']"
    by (cases "output_values ''decision'' (run world_example)") auto
  have s1: "String_num (openCount \<lparr>openCount = 2, mergedCount = 0\<rparr> - 1) = ''1''" by code_simp
  have s2: "String_num (mergedCount \<lparr>openCount = 2, mergedCount = 0\<rparr>) = ''0''" by code_simp
  have s3: "String_num (allowedOpenFromPolicy (policy (inputs entered_example))
              (mergedCount \<lparr>openCount = 2, mergedCount = 0\<rparr>)) = ''1''" by code_simp
  from nv entry_example counts_example
  have "output_values ''openCount'' (run world_example)
          = [String_num (openCount \<lparr>openCount = 2, mergedCount = 0\<rparr> - 1)]
      \<and> output_values ''mergedCount'' (run world_example)
          = [String_num (mergedCount \<lparr>openCount = 2, mergedCount = 0\<rparr>)]
      \<and> output_values ''allowedOpen'' (run world_example)
          = [String_num (allowedOpenFromPolicy (policy (inputs entered_example))
              (mergedCount \<lparr>openCount = 2, mergedCount = 0\<rparr>))]"
    by blast
  then have v: "output_values ''openCount'' (run world_example) = [''1'']
      \<and> output_values ''mergedCount'' (run world_example) = [''0'']
      \<and> output_values ''allowedOpen'' (run world_example) = [''1'']"
    by (simp only: s1 s2 s3)
  from entry_example counts_example f n c u d v show ?thesis by blast
qed

text \<open>
  Claim C9, as the code has it. \<open>parseInputs\<close> fails exactly when the \<open>policy\<close> input is
  empty, is not JSON, is not an array, or holds an element that is \<open>null\<close> or lacks a
  numeric \<open>allowedOpen\<close> or \<open>minMerged\<close>, or when \<open>closeComment\<close> is empty; the run then
  fails before any decision logic, setting no output. An array of rules with numeric
  fields is accepted as it is: the empty array and negative numbers included.
\<close>

theorem parseInputs_checks_shape_only:
  "(isl (parseInputs w) \<longleftrightarrow>
      input w ''policy'' = []
      \<or> (case JSON_parse w (trim (input w ''policy'')) of
            Some (JArr rs) \<Rightarrow> \<not> list_all valid_rule rs
          | _ \<Rightarrow> True)
      \<or> input w ''closeComment'' = [])
   \<and> (\<forall>e. parseInputs w = Inl e \<longrightarrow> run w = [SetFailed e])
   \<and> (\<forall>rs. input w ''policy'' \<noteq> [] \<and> input w ''closeComment'' \<noteq> []
            \<and> JSON_parse w (trim (input w ''policy'')) = Some (JArr rs)
            \<and> list_all valid_rule rs
          \<longrightarrow> (\<exists>inp. parseInputs w = Inr inp \<and> policy inp = map rule_of rs))"
proof (intro conjI allI impI)
  show "isl (parseInputs w) \<longleftrightarrow>
      input w ''policy'' = []
      \<or> (case JSON_parse w (trim (input w ''policy'')) of
            Some (JArr rs) \<Rightarrow> \<not> list_all valid_rule rs
          | _ \<Rightarrow> True)
      \<or> input w ''closeComment'' = []"
    by (auto simp: parseInputs_def getInput_required_def trim_idem parsePolicy_def
        check_rules_valid [of 0, symmetric] split: sum.splits option.splits json.splits)
next
  fix e assume "parseInputs w = Inl e"
  then have "entry_gates w = ([], Throw e)" by (simp add: entry_gates_def)
  then show "run w = [SetFailed e]" by (simp add: run_def run_body_def bind_step_def)
next
  fix rs
  assume "input w ''policy'' \<noteq> [] \<and> input w ''closeComment'' \<noteq> []
            \<and> JSON_parse w (trim (input w ''policy'')) = Some (JArr rs)
            \<and> list_all valid_rule rs"
  then show "\<exists>inp. parseInputs w = Inr inp \<and> policy inp = map rule_of rs"
    by (simp add: parseInputs_def getInput_required_def trim_idem parsePolicy_rules)
qed

text \<open>
  Claim C9 as stated fails: the policy \<open>[]\<close> and a policy with negative \<open>minMerged\<close> and
  \<open>allowedOpen\<close> are both accepted, and the run goes on to a decision.
\<close>

theorem parseInputs_accepts_empty_and_negative_counterexample:
  "JSON_parse world_empty_policy (trim (input world_empty_policy ''policy'')) = Some (JArr [])
   \<and> parseInputs world_empty_policy = Inr (inputs_example\<lparr>policy := []\<rparr>)
   \<and> output_values ''decision'' (run world_empty_policy) = [''closed'']
   \<and> parseInputs world_negative_policy
        = Inr (inputs_example\<lparr>policy := [\<lparr>minMerged = - 1, allowedOpen = - 2\<rparr>]\<rparr>)
   \<and> output_values ''decision'' (run world_negative_policy) = [''closed'']"
  by code_simp

text \<open>
  A rule without \<open>allowedOpen\<close> fails the run with a configuration error; the empty
  policy is accepted.
\<close>

theorem parseInputs_checks_shape_only_witness:
  "parseInputs world_incomplete_rule = Inl (PolicyError (InvalidRule 0))
   \<and> run world_incomplete_rule = [SetFailed (PolicyError (InvalidRule 0))]
   \<and> isl (parseInputs world_incomplete_rule)
   \<and> (\<exists>inp. parseInputs world_empty_policy = Inr inp \<and> policy inp = [])"
proof -
  have p: "parseInputs world_incomplete_rule = Inl (PolicyError (InvalidRule 0))" by code_simp
  have i1: "input world_empty_policy ''policy'' \<noteq> []" by code_simp
  have i2: "input world_empty_policy ''closeComment'' \<noteq> []" by code_simp
  have j: "JSON_parse world_empty_policy (trim (input world_empty_policy ''policy'')) = Some (JArr [])"
    by code_simp
  have v: "list_all valid_rule []" by simp
  from parseInputs_checks_shape_only [of world_incomplete_rule] p
  have a: "run world_incomplete_rule = [SetFailed (PolicyError (InvalidRule 0))]" by blast
  from parseInputs_checks_shape_only [of world_empty_policy] i1 i2 j v
  have b: "\<exists>inp. parseInputs world_empty_policy = Inr inp \<and> policy inp = map rule_of []" by blast
  from p a b show ?thesis by simp
qed

text \<open>
  Claim C10. \<open>allowedOpenFromPolicy\<close> does not mutate its argument: after the call the
  array \<open>policy\<close> refers to holds the same rules in the same order, as does every array
  that existed before the call (the sort works on a fresh copy), and the result is that of
  the function on the rules of the array.
\<close>

theorem allowedOpenFromPolicy_store_frame:
  assumes "a < length h"
  shows "fst (allowedOpenFromPolicy_store h a m) ! a = h ! a \<and>
         (\<forall>b<length h. fst (allowedOpenFromPolicy_store h a m) ! b = h ! b) \<and>
         snd (allowedOpenFromPolicy_store h a m) = allowedOpenFromPolicy (h ! a) m"
  using assms
  by (simp add: allowedOpenFromPolicy_store_def spread_copy_def sort_in_place_def
      allowedOpenFromPolicy_def selectRule_def Let_def nth_append)

text \<open>An unsorted table in a store of one array: the array is left as it was.\<close>

theorem allowedOpenFromPolicy_store_frame_witness:
  "(0::nat) < length [[\<lparr>minMerged = 3, allowedOpen = 3\<rparr>, \<lparr>minMerged = 0, allowedOpen = 1\<rparr>]]
   \<and> fst (allowedOpenFromPolicy_store
            [[\<lparr>minMerged = 3, allowedOpen = 3\<rparr>, \<lparr>minMerged = 0, allowedOpen = 1\<rparr>]] 0 2) ! 0
       = [\<lparr>minMerged = 3, allowedOpen = 3\<rparr>, \<lparr>minMerged = 0, allowedOpen = 1\<rparr>]
   \<and> snd (allowedOpenFromPolicy_store
            [[\<lparr>minMerged = 3, allowedOpen = 3\<rparr>, \<lparr>minMerged = 0, allowedOpen = 1\<rparr>]] 0 2)
       = 1"
proof -
  have h: "(0::nat) < length [[\<lparr>minMerged = 3, allowedOpen = 3\<rparr>, \<lparr>minMerged = 0, allowedOpen = 1\<rparr>]]"
    by simp
  have v: "allowedOpenFromPolicy [\<lparr>minMerged = 3, allowedOpen = 3\<rparr>, \<lparr>minMerged = 0, allowedOpen = 1\<rparr>] 2 = 1"
    by code_simp
  from allowedOpenFromPolicy_store_frame [OF h, of 2] v h show ?thesis by simp
qed

end
